theory Spec2Isabelle
  imports Complex_Main "HOL-Library.Word"
begin

section \<open>Exceptions\<close>

text \<open>
  Python exceptions are values. \<open>KeyboardInterrupt\<close> stands for the exceptions that
  derive from \<open>BaseException\<close> but not from \<open>Exception\<close>; \<open>RetryError e\<close> is
  tenacity's \<open>RetryError\<close>, which carries the outcome of the last attempt (here the
  exception \<open>e\<close> that attempt raised).
\<close>

datatype exc =
    KeyError string
  | AttributeError string
  | ValueError string
  | TypeError string
  | OSError string
  | APIError string
  | ZeroDivisionError
  | KeyboardInterrupt
  | RetryError exc

fun is_Exception :: "exc \<Rightarrow> bool" where
  "is_Exception KeyboardInterrupt = False"
| "is_Exception _ = True"

section \<open>Strings\<close>

text \<open>
  A Python \<open>str\<close> is a sequence of Unicode code points, so it is a list of naturals;
  text that is known to be ASCII (the JSONL file, base64 output) is a \<open>string\<close>.
  \<open>ustr\<close> reads a literal of the source as a \<open>str\<close>; \<open>str_nat\<close> and \<open>str_int\<close>
  are \<open>str\<close> on an \<open>int\<close> (the decimal digits, with a sign).
\<close>

type_synonym ustr = "nat list"

definition ustr :: "string \<Rightarrow> ustr" where
  "ustr s = map of_char s"

definition digit_char :: "nat \<Rightarrow> char" where
  "digit_char n = char_of (48 + n)"

function str_nat :: "nat \<Rightarrow> string" where
  "str_nat n = (if n < 10 then [digit_char n] else str_nat (n div 10) @ [digit_char (n mod 10)])"
  by pat_completeness auto
termination
  by (relation "measure (\<lambda>n. n)") auto

definition str_int :: "int \<Rightarrow> string" where
  "str_int i = (if i < 0 then CHR ''-'' # str_nat (nat (- i)) else str_nat (nat i))"

section \<open>Base64 and \<open>encode_image\<close>\<close>

text \<open>
  \<open>base64.b64encode\<close> with the standard alphabet: three bytes become four
  characters; a rest of one or two bytes is padded with \<open>=\<close>. \<open>b64char\<close> is the
  alphabet \<open>A..Z a..z 0..9 + /\<close>, given by the character codes.
\<close>

definition b64char :: "nat \<Rightarrow> char" where
  "b64char i =
     (if i < 26 then char_of (65 + i)
      else if i < 52 then char_of (71 + i)
      else if i < 62 then char_of (i - 4)
      else if i = 62 then CHR ''+'' else CHR ''/'')"

fun b64encode :: "8 word list \<Rightarrow> string" where
  "b64encode (a # b # c # rest) =
     (let n = unat a * 65536 + unat b * 256 + unat c
      in [b64char (n div 262144), b64char (n div 4096 mod 64),
          b64char (n div 64 mod 64), b64char (n mod 64)]) @ b64encode rest"
| "b64encode [a, b] =
     (let n = unat a * 65536 + unat b * 256
      in [b64char (n div 262144), b64char (n div 4096 mod 64),
          b64char (n div 64 mod 64), CHR ''=''])"
| "b64encode [a] =
     (let n = unat a * 65536
      in [b64char (n div 262144), b64char (n div 4096 mod 64), CHR ''='', CHR ''=''])"
| "b64encode [] = []"

text \<open>
  A Pillow image has a mode, a size and pixel data. What Pillow computes is not part of
  the notebook, so its two operations are parameters: \<open>convert_data\<close> is the pixel
  conversion behind \<open>Image.convert\<close> and \<open>save_jpeg\<close> is
  \<open>image.save(buffered, format="JPEG", quality=quality)\<close> followed by
  \<open>buffered.getvalue()\<close>. Either may raise (the JPEG writer does on an empty
  image, for one). \<open>Image.convert(mode)\<close> returns an image of the requested mode.
  One failure is fixed here because totality over the colour modes turns on it: Pillow
  has no conversion from the premultiplied mode \<open>La\<close> to \<open>RGB\<close> and raises
  \<open>ValueError\<close> (the message is abbreviated).
\<close>

record pil_image =
  mode :: string
  width :: nat
  height :: nat
  pixels :: "8 word list"

record pillow =
  convert_data :: "pil_image \<Rightarrow> string \<Rightarrow> exc + 8 word list"
  save_jpeg :: "pil_image \<Rightarrow> nat \<Rightarrow> exc + 8 word list"

definition convert :: "pillow \<Rightarrow> pil_image \<Rightarrow> string \<Rightarrow> exc + pil_image" where
  "convert lib im m =
     (if mode im = ''La'' \<and> m = ''RGB'' then Inl (ValueError ''conversion not supported'')
      else case convert_data lib im m of
             Inl e \<Rightarrow> Inl e
           | Inr d \<Rightarrow> Inr (im\<lparr>mode := m, pixels := d\<rparr>))"

definition encode_image :: "pillow \<Rightarrow> pil_image \<Rightarrow> nat \<Rightarrow> exc + ustr" where
  "encode_image lib im quality =
     (case (if mode im \<noteq> ''RGB'' then convert lib im ''RGB'' else Inr im) of
        Inl e \<Rightarrow> Inl e
      | Inr im' \<Rightarrow>
          (case save_jpeg lib im' quality of
             Inl e \<Rightarrow> Inl e
           | Inr buffered \<Rightarrow> Inr (ustr (b64encode buffered))))"

section \<open>Dataset conversion and the JSONL writer\<close>

text \<open>
  A cell of the dataset holds a Python value: a \<open>str\<close>, \<open>None\<close>, the float NaN
  (the missing value of pandas), an \<open>int\<close>, or an object of another type (bytes,
  \<open>numpy.int64\<close>, an array), kept as the name of its type and the text \<open>str()\<close>
  gives for it. Other floats and booleans are not modelled. \<open>py_str\<close> is \<open>str()\<close>,
  which is what an f-string inserts.
\<close>

datatype pyval = PStr ustr | PNone | PNaN | PInt int | PObj string ustr

fun py_str :: "pyval \<Rightarrow> ustr" where
  "py_str (PStr s) = s"
| "py_str PNone = ustr ''None''"
| "py_str PNaN = ustr ''nan''"
| "py_str (PInt i) = ustr (str_int i)"
| "py_str (PObj ty s) = s"

text \<open>
  The values handed to \<open>json.dump\<close>: dictionaries (in insertion order), lists,
  strings, \<open>None\<close>, NaN, ints, and objects of a type that \<open>json\<close> cannot serialise
  (\<open>JOther\<close>, with the name of the type). \<open>as_json\<close> is how \<open>json.dump\<close> sees the
  value of a cell.
\<close>

datatype json =
    JStr ustr
  | JNull
  | JNaN
  | JInt int
  | JOther string
  | JArr "json list"
  | JObj "(ustr \<times> json) list"

fun as_json :: "pyval \<Rightarrow> json" where
  "as_json (PStr s) = JStr s"
| "as_json PNone = JNull"
| "as_json PNaN = JNaN"
| "as_json (PInt i) = JInt i"
| "as_json (PObj ty s) = JOther ty"

definition SYSTEM_PROMPT :: ustr where
  "SYSTEM_PROMPT = ustr
     (''You are a Vision Language Model specialized in interpreting visual data from chart images.''
      @ [CHR 0x0A] @
      ''Your task is to analyze the provided chart image and respond to queries with concise answers, usually a single word, number, or short phrase.''
      @ [CHR 0x0A] @
      ''The charts include a variety of types (e.g., line charts, bar charts) and contain colors, labels, and text.''
      @ [CHR 0x0A] @
      ''Focus on delivering accurate, succinct answers based on the visual information. Avoid additional explanation unless absolutely necessary.'')"

text \<open>
  A row of the dataset, as \<open>itertuples\<close> yields it. The cell before selects the columns
  \<open>question\<close>, \<open>answer\<close> and \<open>image\<close>, so every row has the three attributes and
  reading one never raises; a missing value is \<open>None\<close> or NaN. The image is a Pillow
  image or \<open>None\<close>.
\<close>

record example =
  image_attr :: "pil_image option"
  question :: pyval
  answer :: pyval

definition base64_prefix :: ustr where
  "base64_prefix = ustr ''data:image/jpeg;base64,''"

text \<open>
  The body of the \<open>try\<close> block, in the order the source evaluates it. With \<open>None\<close>
  for the image, \<open>encode_image\<close> raises \<open>AttributeError\<close> at \<open>image.mode\<close>.
\<close>

definition build_record :: "pillow \<Rightarrow> nat \<Rightarrow> example \<Rightarrow> exc + json" where
  "build_record lib idx ex =
     (let system_message = JObj [(ustr ''role'', JStr (ustr ''system'')),
                                 (ustr ''content'', JStr SYSTEM_PROMPT)]
      in case image_attr ex of
           None \<Rightarrow> Inl (AttributeError ''NoneType object has no attribute mode'')
         | Some im \<Rightarrow>
        (case encode_image lib im 80 of
           Inl e \<Rightarrow> Inl e
         | Inr encoded_image \<Rightarrow>
        (let user_message = JObj
               [(ustr ''role'', JStr (ustr ''user'')),
                (ustr ''content'', JArr
                   [JObj [(ustr ''type'', JStr (ustr ''text'')),
                          (ustr ''text'',
                           JStr (ustr (''Question ['' @ str_nat idx @ '']: '')
                                 @ py_str (question ex)))],
                    JObj [(ustr ''type'', JStr (ustr ''image_url'')),
                          (ustr ''image_url'',
                           JObj [(ustr ''url'', JStr (base64_prefix @ encoded_image))])]])];
             assistant_message = JObj [(ustr ''role'', JStr (ustr ''assistant'')),
                                       (ustr ''content'', as_json (answer ex))]
         in Inr (JObj [(ustr ''messages'',
                        JArr [system_message, user_message, assistant_message])]))))"

text \<open>
  The loop over \<open>enumerate(dataset.itertuples())\<close>. The state is \<open>json_data\<close> and what
  has been printed. \<open>except KeyError\<close> and \<open>except Exception\<close> both print and go on
  to the next row; an exception that is not an \<open>Exception\<close> leaves the loop.
\<close>

datatype log_entry = Missing_field nat exc | Error_processing nat exc

fun convert_rows ::
  "pillow \<Rightarrow> nat \<Rightarrow> example list \<Rightarrow> json list \<Rightarrow> log_entry list \<Rightarrow> exc + json list \<times> log_entry list"
where
  "convert_rows lib idx [] json_data printed = Inr (json_data, printed)"
| "convert_rows lib idx (ex # rest) json_data printed =
     (case build_record lib idx ex of
        Inr r \<Rightarrow> convert_rows lib (Suc idx) rest (json_data @ [r]) printed
      | Inl (KeyError k) \<Rightarrow>
          convert_rows lib (Suc idx) rest json_data (printed @ [Missing_field idx (KeyError k)])
      | Inl e \<Rightarrow>
          if is_Exception e
          then convert_rows lib (Suc idx) rest json_data (printed @ [Error_processing idx e])
          else Inl e)"

text \<open>
  \<open>json.dump\<close> with its default arguments: \<open>ensure_ascii=True\<close>, no indentation,
  separators \<open>", "\<close> and \<open>": "\<close>. A string is escaped as
  \<open>py_encode_basestring_ascii\<close> does: the two-character escapes, every other code
  point outside \<open>' '..'~'\<close> as \<open>\uXXXX\<close>, and a code point above \<open>0xFFFF\<close> as a
  surrogate pair (\<open>0xd800 | ((n >> 10) & 0x3ff)\<close> and \<open>0xdc00 | (n & 0x3ff)\<close>, written
  here with \<open>+\<close>, \<open>div\<close> and \<open>mod\<close>).
\<close>

definition hex_digit :: "nat \<Rightarrow> char" where
  "hex_digit n = (if n < 10 then char_of (48 + n) else char_of (87 + n))"

definition hex4 :: "nat \<Rightarrow> string" where
  "hex4 n = [hex_digit (n div 4096 mod 16), hex_digit (n div 256 mod 16),
             hex_digit (n div 16 mod 16), hex_digit (n mod 16)]"

definition u_escape :: "nat \<Rightarrow> string" where
  "u_escape n = [CHR 0x5C, CHR ''u''] @ hex4 n"

definition esc_char :: "nat \<Rightarrow> string" where
  "esc_char c =
     (if c = 0x22 then [CHR 0x5C, CHR 0x22]
      else if c = 0x5C then [CHR 0x5C, CHR 0x5C]
      else if c = 0x0A then [CHR 0x5C, CHR ''n'']
      else if c = 0x0D then [CHR 0x5C, CHR ''r'']
      else if c = 0x09 then [CHR 0x5C, CHR ''t'']
      else if c = 0x0C then [CHR 0x5C, CHR ''f'']
      else if c = 0x08 then [CHR 0x5C, CHR ''b'']
      else if 0x20 \<le> c \<and> c \<le> 0x7E then [char_of c]
      else if c < 0x10000 then u_escape c
      else (let v = c - 0x10000
            in u_escape (0xD800 + v div 1024 mod 1024) @ u_escape (0xDC00 + v mod 1024)))"

definition dumps_str :: "ustr \<Rightarrow> string" where
  "dumps_str s = [CHR 0x22] @ concat (map esc_char s) @ [CHR 0x22]"

text \<open>
  \<open>json.dump\<close> writes the chunks of \<open>iterencode\<close> to the file one after the other,
  so what it has written when it raises stays in the file. A written text comes with
  the exception that stopped the writing, if any; \<open>then_write\<close> is sequencing.
  An object of a type \<open>json\<close> does not know raises \<open>TypeError\<close> after the opening
  bracket, the separator or the key before it has been written.
\<close>

type_synonym written = "string \<times> exc option"

definition then_write :: "written \<Rightarrow> written \<Rightarrow> written" where
  "then_write a b =
     (case snd a of
        Some e \<Rightarrow> (fst a, Some e)
      | None \<Rightarrow> (fst a @ fst b, snd b))"

fun dump_join :: "written list \<Rightarrow> written" where
  "dump_join [] = ([], None)"
| "dump_join [x] = x"
| "dump_join (x # y # ys) = then_write x (then_write ('', '', None) (dump_join (y # ys)))"

fun dump :: "json \<Rightarrow> written" where
  "dump (JStr s) = (dumps_str s, None)"
| "dump JNull = (''null'', None)"
| "dump JNaN = (''NaN'', None)"
| "dump (JInt i) = (str_int i, None)"
| "dump (JOther ty) = ([], Some (TypeError ty))"
| "dump (JArr vs) =
     then_write (''['', None) (then_write (dump_join (map dump vs)) ('']'', None))"
| "dump (JObj kvs) =
     then_write (''{'', None)
       (then_write
          (dump_join (map (\<lambda>kv. then_write (dumps_str (fst kv) @ '': '', None) (dump (snd kv))) kvs))
          (''}'', None))"

text \<open>
  \<open>json.dump(message, f)\<close> and \<open>f.write("\n")\<close> for each element of \<open>json_data\<close>;
  an exception of \<open>json.dump\<close> ends the writing.
\<close>

fun write_jsonl :: "json list \<Rightarrow> written" where
  "write_jsonl [] = ([], None)"
| "write_jsonl (message # rest) =
     then_write (dump message) (then_write ([CHR 0x0A], None) (write_jsonl rest))"

text \<open>
  One pass of the outer loop: the content of the file \<open>{project_name}-{split}.jsonl\<close>
  with the exception that stopped the writing, if any, and what was printed for the
  rows. The file is opened only when the row loop has ended normally.
\<close>

definition generate_split ::
  "pillow \<Rightarrow> example list \<Rightarrow> exc + written \<times> log_entry list" where
  "generate_split lib dataset =
     (case convert_rows lib 0 dataset [] [] of
        Inl e \<Rightarrow> Inl e
      | Inr (json_data, printed) \<Rightarrow> Inr (write_jsonl json_data, printed))"

section \<open>The retry wrapper\<close>

text \<open>
  The notebook decorates both remote calls with
  \<^verbatim>\<open>@retry(stop=stop_after_attempt(3), wait=wait_fixed(10))\<close>.
  All other parameters of tenacity's \<open>retry\<close> keep their defaults: the retry
  predicate is \<open>retry_if_exception_type()\<close> (retry when the attempt raised an
  instance of \<open>Exception\<close>), \<open>reraise\<close> is \<open>False\<close> and there is no
  \<open>retry_error_callback\<close>.

  A wrapped call is a state transformer on the outside world: it returns the outcome
  of one attempt and the world after it. The loop below is tenacity's
  \<open>Retrying.__call__\<close> with \<open>Retrying.iter\<close> inlined:
  \<^item> an attempt that returns ends the loop with its value;
  \<^item> an attempt whose exception the retry predicate rejects re-raises that exception;
  \<^item> otherwise, when \<open>stop_after_attempt(n)\<close> holds (\<open>attempt_number \<ge> n\<close>),
    \<open>RetryError\<close> is raised from the last attempt, since \<open>reraise\<close> is off;
  \<^item> otherwise the loop sleeps \<open>wait_fixed(d)\<close> seconds and starts the next attempt.
  The record \<open>retry_stats\<close> holds the two entries of tenacity's \<open>statistics\<close> that
  matter here: the number of the last attempt and the seconds slept in total.
\<close>

record retry_stats =
  attempt_number :: nat
  idle_for :: nat

type_synonym ('s, 'a) remote = "'s \<Rightarrow> (exc + 'a) \<times> 's"

function retry_loop ::
  "nat \<Rightarrow> nat \<Rightarrow> ('s, 'a) remote \<Rightarrow> nat \<Rightarrow> nat \<Rightarrow> 's \<Rightarrow> ((exc + 'a) \<times> retry_stats) \<times> 's"
where
  "retry_loop n d f k idle s =
     (case f s of
        (Inr v, s') \<Rightarrow> ((Inr v, \<lparr>attempt_number = k, idle_for = idle\<rparr>), s')
      | (Inl e, s') \<Rightarrow>
          if \<not> is_Exception e
          then ((Inl e, \<lparr>attempt_number = k, idle_for = idle\<rparr>), s')
          else if k \<ge> n
          then ((Inl (RetryError e), \<lparr>attempt_number = k, idle_for = idle\<rparr>), s')
          else retry_loop n d f (Suc k) (idle + d) s')"
  by pat_completeness auto
termination
  by (relation "measure (\<lambda>(n, d, f, k, idle, s). n - k)") auto

definition retry ::
  "nat \<Rightarrow> nat \<Rightarrow> ('s, 'a) remote \<Rightarrow> 's \<Rightarrow> ((exc + 'a) \<times> retry_stats) \<times> 's" where
  "retry stop_after_attempt wait_fixed f s = retry_loop stop_after_attempt wait_fixed f 1 0 s"

text \<open>
  The remote endpoint \<open>client.chat.completions.create\<close> is a parameter: given the
  request it acts on the world and returns \<open>response.choices[0].message.content\<close>
  (which may be \<open>None\<close>) or raises.
\<close>

record request =
  model :: ustr
  messages :: json
  temperature :: int

type_synonym 's client = "request \<Rightarrow> ('s, ustr option) remote"

definition query_image_body ::
  "pillow \<Rightarrow> 's client \<Rightarrow> pil_image \<Rightarrow> ustr \<Rightarrow> ustr \<Rightarrow> ('s, ustr option) remote" where
  "query_image_body lib create im quest deployment s =
     (case encode_image lib im 50 of
        Inl e \<Rightarrow> (Inl e, s)
      | Inr b64 \<Rightarrow>
          (let encoded_image_url = ustr ''data:image/jpeg;base64,'' @ b64
           in create \<lparr>model = deployment,
                      messages = JArr
                        [JObj [(ustr ''role'', JStr (ustr ''system'')),
                               (ustr ''content'', JStr SYSTEM_PROMPT)],
                         JObj [(ustr ''role'', JStr (ustr ''user'')),
                               (ustr ''content'', JArr
                                  [JObj [(ustr ''type'', JStr (ustr ''text'')),
                                         (ustr ''text'', JStr quest)],
                                   JObj [(ustr ''type'', JStr (ustr ''image_url'')),
                                         (ustr ''image_url'',
                                          JObj [(ustr ''url'', JStr encoded_image_url)])]])]],
                      temperature = 0\<rparr> s))"

definition query_image ::
  "pillow \<Rightarrow> 's client \<Rightarrow> pil_image \<Rightarrow> ustr \<Rightarrow> ustr \<Rightarrow> 's
     \<Rightarrow> ((exc + ustr option) \<times> retry_stats) \<times> 's" where
  "query_image lib create im quest deployment =
     retry 3 10 (query_image_body lib create im quest deployment)"

definition EVAL_SYSTEM_PROMPT :: ustr where
  "EVAL_SYSTEM_PROMPT = ustr
     (''You evaluate the factual correctness of a predicted answer about a diagram with a ground truth answer. ''
      @ [CHR 0x0A] @ replicate 28 CHR '' '' @
      ''The predicted answer might be formulated in a different way. Your only concern is if the predicted answer is correct from a factual perspective. ''
      @ [CHR 0x0A] @ replicate 28 CHR '' '' @
      ''You are provided with the original question, the ground truth answer and the predicted answer.''
      @ [CHR 0x0A] @ replicate 28 CHR '' '' @
      ''You respond with either CORRECT or INCORRECT'')"

definition str_opt :: "ustr option \<Rightarrow> ustr" where
  "str_opt v = (case v of None \<Rightarrow> ustr ''None'' | Some s \<Rightarrow> s)"

definition evaluate_body ::
  "'s client \<Rightarrow> ustr \<Rightarrow> ustr \<Rightarrow> ustr option \<Rightarrow> ustr \<Rightarrow> ('s, ustr option) remote" where
  "evaluate_body create quest ground_truth_answer predicted_answer deployment s =
     (let user_prompt = ustr ''Original question: '' @ quest @ ustr ('' '' @ [CHR 0x0A]) @
                        ustr ''Ground truth answer: '' @ ground_truth_answer @ ustr [CHR 0x0A] @
                        ustr ''Predicted answer: '' @ str_opt predicted_answer
      in create \<lparr>model = deployment,
                 messages = JArr
                   [JObj [(ustr ''role'', JStr (ustr ''system'')),
                          (ustr ''content'', JStr EVAL_SYSTEM_PROMPT)],
                    JObj [(ustr ''role'', JStr (ustr ''user'')),
                          (ustr ''content'', JStr user_prompt)]],
                 temperature = 0\<rparr> s)"

definition evaluate ::
  "'s client \<Rightarrow> ustr \<Rightarrow> ustr \<Rightarrow> ustr option \<Rightarrow> ustr \<Rightarrow> 's
     \<Rightarrow> ((exc + ustr option) \<times> retry_stats) \<times> 's" where
  "evaluate create quest ground_truth_answer predicted_answer deployment =
     retry 3 10 (evaluate_body create quest ground_truth_answer predicted_answer deployment)"

section \<open>Accuracy aggregation\<close>

text \<open>
  \<open>ds_test_eval\<close> has one row per evaluated example; the two judge columns hold what
  \<open>evaluate\<close> returned. \<open>value_counts().get("CORRECT", 0)\<close> is the number of rows
  whose entry equals the string \<open>CORRECT\<close>; \<open>shape[0]\<close> is the number of rows.
  Python's \<open>/\<close> raises \<open>ZeroDivisionError\<close> on a zero divisor; the quotient is kept
  exact here (a rational), where Python rounds it to a float.
\<close>

record eval_row =
  base_eval :: "ustr option"
  ft_eval :: "ustr option"

definition value_counts_get :: "ustr option list \<Rightarrow> ustr \<Rightarrow> nat" where
  "value_counts_get col label = length (filter (\<lambda>v. v = Some label) col)"

definition truediv :: "nat \<Rightarrow> nat \<Rightarrow> exc + rat" where
  "truediv a b = (if b = 0 then Inl ZeroDivisionError else Inr (of_nat a / of_nat b))"

record chart_data =
  baseline_accuracy :: rat
  fine_tuned_accuracy :: rat

definition accuracy_comparison :: "eval_row list \<Rightarrow> exc + chart_data" where
  "accuracy_comparison ds_test_eval =
     (let base_correct_count = value_counts_get (map base_eval ds_test_eval) (ustr ''CORRECT'');
          base_eval_observations = length ds_test_eval;
          ft_correct_count = value_counts_get (map ft_eval ds_test_eval) (ustr ''CORRECT'');
          ft_eval_observations = length ds_test_eval
      in case truediv base_correct_count base_eval_observations of
           Inl e \<Rightarrow> Inl e
         | Inr b \<Rightarrow>
             (case truediv ft_correct_count ft_eval_observations of
                Inl e \<Rightarrow> Inl e
              | Inr f \<Rightarrow> Inr \<lparr>baseline_accuracy = b, fine_tuned_accuracy = f\<rparr>))"

section \<open>Metrics smoothing and plotting\<close>

text \<open>
  A DataFrame of metrics is a list of named columns of equal length; a cell is a number
  or NaN (\<open>None\<close>). Numbers are exact rationals. Selecting a column that does not exist
  raises \<open>KeyError\<close>.
\<close>

type_synonym cell = "rat option"
type_synonym dataframe = "(string \<times> cell list) list"

definition getitem :: "dataframe \<Rightarrow> string \<Rightarrow> exc + cell list" where
  "getitem df name = (case map_of df name of None \<Rightarrow> Inl (KeyError name) | Some c \<Rightarrow> Inr c)"

text \<open>
  Boolean indexing: \<open>select keep c\<close> keeps the entries of \<open>c\<close> whose position is
  marked in \<open>keep\<close>. \<open>notna\<close> marks the cells that are not NaN (the rows
  \<open>dropna\<close> keeps) and \<open>ne c v\<close> is the comparison \<open>c != v\<close> (true for NaN).
\<close>

definition select :: "bool list \<Rightarrow> 'a list \<Rightarrow> 'a list" where
  "select keep c = map fst (filter snd (zip c keep))"

definition select_rows :: "bool list \<Rightarrow> dataframe \<Rightarrow> dataframe" where
  "select_rows keep df = map (\<lambda>(name, c). (name, select keep c)) df"

definition notna :: "cell list \<Rightarrow> bool list" where
  "notna c = map (\<lambda>x. x \<noteq> None) c"

definition ne :: "cell list \<Rightarrow> rat \<Rightarrow> bool list" where
  "ne c v = map (\<lambda>x. x \<noteq> Some v) c"

text \<open>
  \<open>rolling(window=w).mean()\<close>, with \<open>min_periods\<close> at its default, the window
  size: the window of row \<open>i\<close> is the rows \<open>i - w + 1 .. i\<close> that exist; the result is the
  mean of the numbers in the window when there are at least \<open>w\<close> (and at least one) of
  them, and NaN otherwise.
\<close>

definition window_at :: "nat \<Rightarrow> cell list \<Rightarrow> nat \<Rightarrow> cell list" where
  "window_at w xs i = drop (Suc i - w) (take (Suc i) xs)"

definition window_mean :: "nat \<Rightarrow> cell list \<Rightarrow> cell" where
  "window_mean min_periods win =
     (let obs = List.map_filter (\<lambda>x. x) win
      in if length obs \<ge> min_periods \<and> length obs > 0
         then Some (sum_list obs / of_nat (length obs)) else None)"

definition rolling_mean :: "nat \<Rightarrow> cell list \<Rightarrow> cell list" where
  "rolling_mean w xs = map (\<lambda>i. window_mean w (window_at w xs i)) [0..<length xs]"

definition rolling_mean_df :: "nat \<Rightarrow> dataframe \<Rightarrow> dataframe" where
  "rolling_mean_df w df = map (\<lambda>(name, c). (name, rolling_mean w c)) df"

text \<open>
  \<open>show_ft_metrics\<close> up to the four \<open>plt.plot\<close> calls: each curve is the pair of
  series handed to \<open>plot\<close>.
\<close>

record ft_curves =
  train_loss_curve :: "cell list \<times> cell list"
  train_accuracy_curve :: "cell list \<times> cell list"
  valid_loss_curve :: "cell list \<times> cell list"
  valid_accuracy_curve :: "cell list \<times> cell list"

definition and_then :: "exc + 'a \<Rightarrow> ('a \<Rightarrow> exc + 'b) \<Rightarrow> exc + 'b" where
  "and_then m f = (case m of Inl e \<Rightarrow> Inl e | Inr x \<Rightarrow> f x)"

definition filter_valid :: "dataframe \<Rightarrow> exc + dataframe" where
  "filter_valid results_df =
     and_then (getitem results_df ''valid_loss'') (\<lambda>vl.
       let filtered_df = select_rows (notna vl) results_df
       in and_then (getitem filtered_df ''valid_loss'') (\<lambda>vl'.
            Inr (select_rows (ne vl' (- 1)) filtered_df)))"

definition show_ft_metrics :: "dataframe \<Rightarrow> nat \<Rightarrow> exc + ft_curves" where
  "show_ft_metrics results_df window_size =
     and_then (filter_valid results_df) (\<lambda>filtered_df.
       let results_df_smooth = rolling_mean_df window_size results_df;
           filtered_df_smooth = rolling_mean_df window_size filtered_df
       in and_then (getitem results_df_smooth ''step'') (\<lambda>x1.
          and_then (getitem results_df_smooth ''train_loss'') (\<lambda>y1.
          and_then (getitem results_df_smooth ''step'') (\<lambda>x2.
          and_then (getitem results_df_smooth ''train_mean_token_accuracy'') (\<lambda>y2.
          and_then (getitem filtered_df_smooth ''step'') (\<lambda>x3.
          and_then (getitem filtered_df_smooth ''valid_loss'') (\<lambda>y3.
          and_then (getitem filtered_df_smooth ''step'') (\<lambda>x4.
          and_then (getitem filtered_df_smooth ''valid_mean_token_accuracy'') (\<lambda>y4.
            Inr \<lparr>train_loss_curve = (x1, y1), train_accuracy_curve = (x2, y2),
                 valid_loss_curve = (x3, y3), valid_accuracy_curve = (x4, y4)\<rparr>)))))))))"

section \<open>Reference definitions: reading a JSONL file back\<close>

text \<open>
  A reader for the JSON that the writer can produce (strings, arrays, objects, with
  optional white space), written from the JSON grammar and not from the code.
  A string is read as a sequence of UTF-16 code units (raw ASCII characters, the
  two-character escapes and \<open>\uXXXX\<close>), raw control characters and non-ASCII bytes
  are rejected, and a high surrogate followed by a low one is joined into one code
  point. The value parser is mutually recursive and takes fuel; \<open>loads\<close> gives it
  the length of the text and accepts only white space after the value.
\<close>

definition is_ws :: "char \<Rightarrow> bool" where
  "is_ws c = (c = CHR '' '' \<or> c = CHR 0x09 \<or> c = CHR 0x0A \<or> c = CHR 0x0D)"

fun skip_ws :: "string \<Rightarrow> string" where
  "skip_ws [] = []"
| "skip_ws (c # cs) = (if is_ws c then skip_ws cs else c # cs)"

definition hexval :: "char \<Rightarrow> nat option" where
  "hexval c =
     (let n = (of_char c :: nat)
      in if 48 \<le> n \<and> n \<le> 57 then Some (n - 48)
         else if 97 \<le> n \<and> n \<le> 102 then Some (n - 87)
         else if 65 \<le> n \<and> n \<le> 70 then Some (n - 55)
         else None)"

definition unhex4 :: "string \<Rightarrow> (nat \<times> string) option" where
  "unhex4 cs =
     (case cs of
        h1 # h2 # h3 # h4 # rest \<Rightarrow>
          (case (hexval h1, hexval h2, hexval h3, hexval h4) of
             (Some a, Some b, Some c, Some d) \<Rightarrow> Some (a * 4096 + b * 256 + c * 16 + d, rest)
           | _ \<Rightarrow> None)
      | _ \<Rightarrow> None)"

definition simple_escape :: "char \<Rightarrow> nat option" where
  "simple_escape e =
     (if e = CHR 0x22 then Some 0x22
      else if e = CHR 0x5C then Some 0x5C
      else if e = CHR ''/'' then Some 0x2F
      else if e = CHR ''b'' then Some 0x08
      else if e = CHR ''f'' then Some 0x0C
      else if e = CHR ''n'' then Some 0x0A
      else if e = CHR ''r'' then Some 0x0D
      else if e = CHR ''t'' then Some 0x09
      else None)"

function parse_units :: "string \<Rightarrow> (nat list \<times> string) option" where
  "parse_units [] = None"
| "parse_units (c # cs) =
     (if c = CHR 0x22 then Some ([], cs)
      else if c = CHR 0x5C then
        (case cs of
           [] \<Rightarrow> None
         | e # cs' \<Rightarrow>
             if e = CHR ''u'' then
               (case unhex4 cs' of
                  None \<Rightarrow> None
                | Some (n, cs'') \<Rightarrow>
                    (case parse_units cs'' of
                       None \<Rightarrow> None
                     | Some (us, rest) \<Rightarrow> Some (n # us, rest)))
             else
               (case simple_escape e of
                  None \<Rightarrow> None
                | Some n \<Rightarrow>
                    (case parse_units cs' of
                       None \<Rightarrow> None
                     | Some (us, rest) \<Rightarrow> Some (n # us, rest))))
      else if 0x20 \<le> (of_char c :: nat) \<and> (of_char c :: nat) < 0x80 then
        (case parse_units cs of
           None \<Rightarrow> None
         | Some (us, rest) \<Rightarrow> Some (of_char c # us, rest))
      else None)"
  by pat_completeness auto
termination
  by (relation "measure length")
    (auto simp: unhex4_def split: list.splits option.splits)

fun join_surrogates :: "nat list \<Rightarrow> ustr" where
  "join_surrogates (h # l # rest) =
     (if 0xD800 \<le> h \<and> h \<le> 0xDBFF \<and> 0xDC00 \<le> l \<and> l \<le> 0xDFFF
      then (0x10000 + (h - 0xD800) * 1024 + (l - 0xDC00)) # join_surrogates rest
      else h # join_surrogates (l # rest))"
| "join_surrogates us = us"

definition parse_string :: "string \<Rightarrow> (ustr \<times> string) option" where
  "parse_string cs =
     (case parse_units cs of None \<Rightarrow> None | Some (us, rest) \<Rightarrow> Some (join_surrogates us, rest))"

fun parse_value :: "nat \<Rightarrow> string \<Rightarrow> (json \<times> string) option"
  and parse_elems :: "nat \<Rightarrow> string \<Rightarrow> (json list \<times> string) option"
  and parse_members :: "nat \<Rightarrow> string \<Rightarrow> ((ustr \<times> json) list \<times> string) option"
where
  "parse_value 0 cs = None"
| "parse_value (Suc k) cs =
     (case skip_ws cs of
        [] \<Rightarrow> None
      | c # cs1 \<Rightarrow>
          if c = CHR 0x22 then
            (case parse_string cs1 of None \<Rightarrow> None | Some (s, cs2) \<Rightarrow> Some (JStr s, cs2))
          else if c = CHR ''['' then
            (case skip_ws cs1 of
               [] \<Rightarrow> None
             | c' # cs2 \<Rightarrow>
                 if c' = CHR '']'' then Some (JArr [], cs2)
                 else (case parse_elems k (c' # cs2) of
                         None \<Rightarrow> None
                       | Some (vs, cs3) \<Rightarrow> Some (JArr vs, cs3)))
          else if c = CHR ''{'' then
            (case skip_ws cs1 of
               [] \<Rightarrow> None
             | c' # cs2 \<Rightarrow>
                 if c' = CHR ''}'' then Some (JObj [], cs2)
                 else (case parse_members k (c' # cs2) of
                         None \<Rightarrow> None
                       | Some (kvs, cs3) \<Rightarrow> Some (JObj kvs, cs3)))
          else None)"
| "parse_elems 0 cs = None"
| "parse_elems (Suc k) cs =
     (case parse_value k cs of
        None \<Rightarrow> None
      | Some (v, cs1) \<Rightarrow>
          (case skip_ws cs1 of
             [] \<Rightarrow> None
           | c # cs2 \<Rightarrow>
               if c = CHR '','' then
                 (case parse_elems k cs2 of
                    None \<Rightarrow> None
                  | Some (vs, cs3) \<Rightarrow> Some (v # vs, cs3))
               else if c = CHR '']'' then Some ([v], cs2)
               else None))"
| "parse_members 0 cs = None"
| "parse_members (Suc k) cs =
     (case skip_ws cs of
        [] \<Rightarrow> None
      | c # cs1 \<Rightarrow>
          if c = CHR 0x22 then
            (case parse_string cs1 of
               None \<Rightarrow> None
             | Some (key, cs2) \<Rightarrow>
                 (case skip_ws cs2 of
                    [] \<Rightarrow> None
                  | c2 # cs3 \<Rightarrow>
                      if c2 = CHR '':'' then
                        (case parse_value k cs3 of
                           None \<Rightarrow> None
                         | Some (v, cs4) \<Rightarrow>
                             (case skip_ws cs4 of
                                [] \<Rightarrow> None
                              | c4 # cs5 \<Rightarrow>
                                  if c4 = CHR '','' then
                                    (case parse_members k cs5 of
                                       None \<Rightarrow> None
                                     | Some (kvs, cs6) \<Rightarrow> Some ((key, v) # kvs, cs6))
                                  else if c4 = CHR ''}'' then Some ([(key, v)], cs5)
                                  else None))
                      else None))
          else None)"

definition loads :: "string \<Rightarrow> json option" where
  "loads s =
     (case parse_value (length s) s of
        None \<Rightarrow> None
      | Some (v, rest) \<Rightarrow> if skip_ws rest = [] then Some v else None)"

text \<open>
  A Python string is well formed when every code point is a Unicode scalar value (no
  surrogates); \<open>utf16\<close> is the code units of a code point.
\<close>

definition utf16 :: "nat \<Rightarrow> nat list" where
  "utf16 c = (if c < 0x10000 then [c]
              else [0xD800 + (c - 0x10000) div 1024 mod 1024, 0xDC00 + (c - 0x10000) mod 1024])"

definition is_scalar :: "nat \<Rightarrow> bool" where
  "is_scalar c = (c < 0x110000 \<and> \<not> (0xD800 \<le> c \<and> c \<le> 0xDFFF))"

definition valid_ustr :: "ustr \<Rightarrow> bool" where
  "valid_ustr s = list_all is_scalar s"

text \<open>
  The text \<open>json.dumps\<close> returns for a value built from strings, lists and
  dictionaries (there is none for \<open>JOther\<close>). \<open>string_tree\<close> holds for the values
  the reader covers: strings, lists and dictionaries whose strings and keys are well
  formed. \<open>cost\<close> bounds the fuel the reader needs for a value.
\<close>

fun join :: "string \<Rightarrow> string list \<Rightarrow> string" where
  "join sep [] = []"
| "join sep [x] = x"
| "join sep (x # y # ys) = x @ sep @ join sep (y # ys)"

fun dumps :: "json \<Rightarrow> string" where
  "dumps (JStr s) = dumps_str s"
| "dumps JNull = ''null''"
| "dumps JNaN = ''NaN''"
| "dumps (JInt i) = str_int i"
| "dumps (JOther ty) = []"
| "dumps (JArr vs) = ''['' @ join '', '' (map dumps vs) @ '']''"
| "dumps (JObj kvs) =
     ''{'' @ join '', '' (map (\<lambda>kv. dumps_str (fst kv) @ '': '' @ dumps (snd kv)) kvs) @ ''}''"

fun string_tree :: "json \<Rightarrow> bool" where
  "string_tree (JStr s) = valid_ustr s"
| "string_tree (JArr vs) = list_all string_tree vs"
| "string_tree (JObj kvs) = list_all (\<lambda>kv. valid_ustr (fst kv) \<and> string_tree (snd kv)) kvs"
| "string_tree _ = False"

fun cost :: "json \<Rightarrow> nat" where
  "cost (JArr vs) = Suc (sum_list (map (\<lambda>v. Suc (cost v)) vs))"
| "cost (JObj kvs) = Suc (sum_list (map (\<lambda>kv. Suc (cost (snd kv))) kvs))"
| "cost _ = 1"

text \<open>
  The lines of a text file (each ended by a newline), and the accessors that take the
  three fields out of a parsed training record: the text of the user message, the image
  URL and the content of the assistant message.
\<close>

fun split_lines :: "string \<Rightarrow> string \<Rightarrow> string list" where
  "split_lines cur [] = (if cur = [] then [] else [cur])"
| "split_lines cur (c # cs) =
     (if c = CHR 0x0A then cur # split_lines [] cs else split_lines (cur @ [c]) cs)"

definition lines_of :: "string \<Rightarrow> string list" where
  "lines_of s = split_lines [] s"

fun member :: "ustr \<Rightarrow> json \<Rightarrow> json option" where
  "member k (JObj kvs) = map_of kvs k"
| "member k _ = None"

fun item :: "nat \<Rightarrow> json \<Rightarrow> json option" where
  "item i (JArr vs) = (if i < length vs then Some (vs ! i) else None)"
| "item i _ = None"

fun str_value :: "json \<Rightarrow> ustr option" where
  "str_value (JStr s) = Some s"
| "str_value _ = None"

definition record_fields :: "json \<Rightarrow> (ustr \<times> ustr \<times> ustr) option" where
  "record_fields r =
     Option.bind (member (ustr ''messages'') r) (\<lambda>ms.
     Option.bind (item 1 ms) (\<lambda>user_message.
     Option.bind (member (ustr ''content'') user_message) (\<lambda>parts.
     Option.bind (item 0 parts) (\<lambda>text_part.
     Option.bind (member (ustr ''text'') text_part) (\<lambda>text.
     Option.bind (str_value text) (\<lambda>q.
     Option.bind (item 1 parts) (\<lambda>image_part.
     Option.bind (member (ustr ''image_url'') image_part) (\<lambda>image_url.
     Option.bind (member (ustr ''url'') image_url) (\<lambda>url.
     Option.bind (str_value url) (\<lambda>u.
     Option.bind (item 2 ms) (\<lambda>assistant_message.
     Option.bind (member (ustr ''content'') assistant_message) (\<lambda>content.
     Option.bind (str_value content) (\<lambda>a. Some (q, u, a))))))))))))))"

definition parse_line :: "string \<Rightarrow> (ustr \<times> ustr \<times> ustr) option" where
  "parse_line line = Option.bind (loads line) record_fields"

text \<open>
  The shape of a training record, as the notebook describes the file format: the
  system message, the user message with a text part and an image part, and the
  assistant message, with the keys in this order. In \<open>training_record\<close> the content
  of the assistant message is a string.
\<close>

definition chat_record :: "ustr \<Rightarrow> ustr \<Rightarrow> json \<Rightarrow> json" where
  "chat_record text url content =
     JObj [(ustr ''messages'',
        JArr [JObj [(ustr ''role'', JStr (ustr ''system'')),
                    (ustr ''content'', JStr SYSTEM_PROMPT)],
              JObj [(ustr ''role'', JStr (ustr ''user'')),
                    (ustr ''content'', JArr
                       [JObj [(ustr ''type'', JStr (ustr ''text'')),
                              (ustr ''text'', JStr text)],
                        JObj [(ustr ''type'', JStr (ustr ''image_url'')),
                              (ustr ''image_url'', JObj [(ustr ''url'', JStr url)])]])],
              JObj [(ustr ''role'', JStr (ustr ''assistant'')),
                    (ustr ''content'', content)]])]"

definition training_record :: "ustr \<Rightarrow> ustr \<Rightarrow> ustr \<Rightarrow> json" where
  "training_record text url content = chat_record text url (JStr content)"

section \<open>Reference definitions for the dataset conversion\<close>

text \<open>
  What the conversion of a dataset is expected to do, written from the rows and not
  from the loop. \<open>row_error\<close> is the exception that converting a row raises, if any:
  the image is missing or Pillow cannot encode it. \<open>skipped\<close> are the numbers of the
  rows that raise, with the exception, \<open>kept\<close> the other rows with their numbers, and
  \<open>printed_for\<close> the message printed for a skipped row. \<open>fields_of\<close> are the three
  fields expected on the line of a kept row: the question text with its prefix, the
  data URL of the encoded image and the answer. \<open>text_row\<close> holds when the question
  text and the answer of a row are well-formed strings, and \<open>well_formed\<close> when in
  addition the question is a string and the image can be encoded.
\<close>

definition row_error :: "pillow \<Rightarrow> example \<Rightarrow> exc option" where
  "row_error lib ex =
     (case image_attr ex of
        None \<Rightarrow> Some (AttributeError ''NoneType object has no attribute mode'')
      | Some im \<Rightarrow> (case encode_image lib im 80 of Inl e \<Rightarrow> Some e | Inr enc \<Rightarrow> None))"

definition image_url :: "pillow \<Rightarrow> example \<Rightarrow> ustr option" where
  "image_url lib ex =
     (case image_attr ex of
        None \<Rightarrow> None
      | Some im \<Rightarrow>
          (case encode_image lib im 80 of Inl e \<Rightarrow> None | Inr enc \<Rightarrow> Some (base64_prefix @ enc)))"

definition question_text :: "nat \<Rightarrow> example \<Rightarrow> ustr" where
  "question_text idx ex = ustr (''Question ['' @ str_nat idx @ '']: '') @ py_str (question ex)"

fun skipped :: "pillow \<Rightarrow> nat \<Rightarrow> example list \<Rightarrow> (nat \<times> exc) list" where
  "skipped lib idx [] = []"
| "skipped lib idx (ex # rest) =
     (case row_error lib ex of None \<Rightarrow> [] | Some e \<Rightarrow> [(idx, e)]) @ skipped lib (Suc idx) rest"

fun kept :: "pillow \<Rightarrow> nat \<Rightarrow> example list \<Rightarrow> (nat \<times> example) list" where
  "kept lib idx [] = []"
| "kept lib idx (ex # rest) =
     (case row_error lib ex of None \<Rightarrow> [(idx, ex)] | Some e \<Rightarrow> []) @ kept lib (Suc idx) rest"

fun printed_for :: "nat \<times> exc \<Rightarrow> log_entry" where
  "printed_for (idx, KeyError k) = Missing_field idx (KeyError k)"
| "printed_for (idx, e) = Error_processing idx e"

definition fields_of :: "pillow \<Rightarrow> nat \<times> example \<Rightarrow> (ustr \<times> ustr \<times> ustr) option" where
  "fields_of lib row =
     (case (image_url lib (snd row), answer (snd row)) of
        (Some u, PStr a) \<Rightarrow> Some (question_text (fst row) (snd row), u, a)
      | _ \<Rightarrow> None)"

definition text_row :: "example \<Rightarrow> bool" where
  "text_row ex =
     (valid_ustr (py_str (question ex)) \<and>
      (case answer ex of PStr a \<Rightarrow> valid_ustr a | _ \<Rightarrow> False))"

definition well_formed :: "pillow \<Rightarrow> example \<Rightarrow> bool" where
  "well_formed lib ex =
     (row_error lib ex = None \<and>
      (case question ex of PStr q \<Rightarrow> valid_ustr q | _ \<Rightarrow> False) \<and>
      (case answer ex of PStr a \<Rightarrow> valid_ustr a | _ \<Rightarrow> False))"

text \<open>The record expected for a kept row (a helper for the proofs).\<close>

definition record_of :: "pillow \<Rightarrow> nat \<times> example \<Rightarrow> json" where
  "record_of lib row =
     (case image_url lib (snd row) of
        None \<Rightarrow> JNull
      | Some u \<Rightarrow> chat_record (question_text (fst row) (snd row)) u (as_json (answer (snd row))))"

section \<open>Reference definition of base64 decoding\<close>

text \<open>
  A strict decoder for the standard alphabet, written from RFC 4648 and not from the
  code: the text is read in groups of four characters, padding is accepted only at the
  end, and any other character makes the text invalid.
\<close>

definition b64val :: "char \<Rightarrow> nat option" where
  "b64val c =
     (let n = (of_char c :: nat)
      in if 65 \<le> n \<and> n \<le> 90 then Some (n - 65)
         else if 97 \<le> n \<and> n \<le> 122 then Some (n - 71)
         else if 48 \<le> n \<and> n \<le> 57 then Some (n + 4)
         else if n = 43 then Some 62
         else if n = 47 then Some 63
         else None)"

fun b64decode :: "string \<Rightarrow> 8 word list option" where
  "b64decode [] = Some []"
| "b64decode (c1 # c2 # c3 # c4 # rest) =
     (case (b64val c1, b64val c2) of
        (Some v1, Some v2) \<Rightarrow>
          if c3 = CHR ''=''
          then (if c4 = CHR ''='' \<and> rest = []
                then Some [of_nat ((v1 * 64 + v2) div 16)] else None)
          else (case b64val c3 of
                  None \<Rightarrow> None
                | Some v3 \<Rightarrow>
                    if c4 = CHR ''=''
                    then (if rest = []
                          then (let n = v1 * 4096 + v2 * 64 + v3
                                in Some [of_nat (n div 1024), of_nat (n div 4 mod 256)])
                          else None)
                    else (case b64val c4 of
                            None \<Rightarrow> None
                          | Some v4 \<Rightarrow>
                              (case b64decode rest of
                                 None \<Rightarrow> None
                               | Some bs \<Rightarrow>
                                   (let n = v1 * 262144 + v2 * 4096 + v3 * 64 + v4
                                    in Some (of_nat (n div 65536) # of_nat (n div 256 mod 256)
                                             # of_nat (n mod 256) # bs)))))
      | _ \<Rightarrow> None)"
| "b64decode _ = None"

section \<open>Reference definitions for the metrics claims\<close>

text \<open>
  What the specification says about smoothing and filtering, written independently of
  the code above. \<open>nan_mean\<close> is the mean of a window in which NaN propagates;
  \<open>spec_rolling_mean\<close> leaves the first \<open>w - 1\<close> rows undefined and gives every later
  row the mean of the \<open>w\<close> values that end at that row; \<open>valid_rows vl col\<close> is the
  column \<open>col\<close> restricted to the rows whose \<open>valid_loss\<close> entry \<open>vl\<close> is present
  and not \<open>-1.0\<close>; \<open>metric_columns\<close> are the names \<open>show_ft_metrics\<close> subscripts.
\<close>

definition nan_mean :: "cell list \<Rightarrow> cell" where
  "nan_mean win =
     (if win = [] \<or> None \<in> set win then None
      else Some (sum_list (map the win) / of_nat (length win)))"

definition spec_rolling_mean :: "nat \<Rightarrow> cell list \<Rightarrow> cell list" where
  "spec_rolling_mean w xs =
     map (\<lambda>i. if i < w - 1 then None else nan_mean (take w (drop (Suc i - w) xs)))
       [0..<length xs]"

definition valid_rows :: "cell list \<Rightarrow> cell list \<Rightarrow> cell list" where
  "valid_rows valid_loss col =
     map fst (filter (\<lambda>(x, v). v \<noteq> None \<and> v \<noteq> Some (- 1)) (zip col valid_loss))"

definition metric_columns :: "string list" where
  "metric_columns = [''step'', ''train_loss'', ''train_mean_token_accuracy'',
                     ''valid_loss'', ''valid_mean_token_accuracy'']"

section \<open>Test doubles\<close>

text \<open>
  Concrete stand-ins for Pillow and for the remote endpoint, used to run the
  definitions: a Pillow whose JPEG bytes are the pixel bytes, an endpoint that fails
  twice before it answers, and one that always fails. The endpoints count the calls
  they receive in the world state.
\<close>

definition test_pillow :: pillow where
  "test_pillow = \<lparr>convert_data = (\<lambda>im m. Inr (take 3 (pixels im))),
                   save_jpeg = (\<lambda>im q. Inr (pixels im))\<rparr>"

definition test_image :: pil_image where
  "test_image = \<lparr>mode = ''RGBA'', width = 1, height = 1, pixels = [1, 2, 3, 255]\<rparr>"

definition flaky_client :: "nat client" where
  "flaky_client req calls =
     (if calls < 2 then Inl (APIError ''timeout'') else Inr (Some (ustr ''CORRECT'')), Suc calls)"

definition failing_client :: "nat client" where
  "failing_client req calls =
     (Inl (APIError (if calls = 0 then ''first failure''
                     else if calls = 1 then ''second failure'' else ''later failure'')),
      Suc calls)"

text \<open>
  A metrics table as the fine-tuning service produces it (with an extra column), the
  curves expected from it for window size 2, and a table whose columns carry the names
  of the specification's metrics row.
\<close>

definition metrics_table :: dataframe where
  "metrics_table =
     [(''step'', [Some 1, Some 2, Some 3, Some 4]),
      (''train_loss'', [Some 4, Some 2, Some 2, Some 0]),
      (''train_mean_token_accuracy'', [Some (1 / 2), Some (1 / 2), Some 1, Some 1]),
      (''valid_loss'', [Some 3, None, Some (- 1), Some 1]),
      (''valid_mean_token_accuracy'', [Some (1 / 2), None, Some (- 1), Some 1]),
      (''full_valid_loss'', [None, None, None, Some 1])]"

definition metrics_curves :: ft_curves where
  "metrics_curves =
     \<lparr>train_loss_curve = ([None, Some (3 / 2), Some (5 / 2), Some (7 / 2)],
                          [None, Some 3, Some 2, Some 1]),
      train_accuracy_curve = ([None, Some (3 / 2), Some (5 / 2), Some (7 / 2)],
                              [None, Some (1 / 2), Some (3 / 4), Some 1]),
      valid_loss_curve = ([None, Some (5 / 2)], [None, Some 2]),
      valid_accuracy_curve = ([None, Some (5 / 2)], [None, Some (3 / 4)])\<rparr>"

definition spec_named_table :: dataframe where
  "spec_named_table =
     [(''step'', [Some 1, Some 2]),
      (''train_loss'', [Some 4, Some 2]),
      (''train_accuracy'', [Some (1 / 2), Some 1]),
      (''validation_loss'', [Some 3, Some 1]),
      (''validation_accuracy'', [Some (1 / 2), Some 1])]"

text \<open>
  An image in the premultiplied mode \<open>La\<close>; a dataset of two well-formed rows; a
  dataset of three rows whose second row has no image and whose third row has no
  question (the cell holds \<open>None\<close>); and a dataset whose first row has a \<open>bytes\<close>
  answer and whose second row is well formed.
\<close>

definition la_image :: pil_image where
  "la_image = \<lparr>mode = ''La'', width = 1, height = 1, pixels = [7, 255]\<rparr>"

definition clean_dataset :: "example list" where
  "clean_dataset =
     [\<lparr>image_attr = Some test_image, question = PStr (ustr ''How many bars?''),
       answer = PStr (ustr ''4'')\<rparr>,
      \<lparr>image_attr = Some test_image, question = PStr (ustr ''Which year is highest?''),
       answer = PStr (ustr ''2019'')\<rparr>]"



declare str_nat.simps [simp del]
declare retry_loop.simps [simp del]

section \<open>Properties of the retry wrapper\<close>

lemma retry_loop_returns:
  "f s = (Inr v, s') \<Longrightarrow>
   retry_loop n d f k idle s = ((Inr v, \<lparr>attempt_number = k, idle_for = idle\<rparr>), s')"
  by (simp add: retry_loop.simps)

lemma retry_loop_again:
  "f s = (Inl e, s') \<Longrightarrow> is_Exception e \<Longrightarrow> k < n \<Longrightarrow>
   retry_loop n d f k idle s = retry_loop n d f (Suc k) (idle + d) s'"
  by (subst retry_loop.simps) simp

lemma retry_loop_stops:
  "f s = (Inl e, s') \<Longrightarrow> is_Exception e \<Longrightarrow> n \<le> k \<Longrightarrow>
   retry_loop n d f k idle s =
     ((Inl (RetryError e), \<lparr>attempt_number = k, idle_for = idle\<rparr>), s')"
  by (simp add: retry_loop.simps)

lemma retry_two_failures:
  assumes "f s0 = (Inl e1, s1)" and "is_Exception e1"
    and "f s1 = (Inl e2, s2)" and "is_Exception e2"
  shows "retry 3 10 f s0 = retry_loop 3 10 f 3 20 s2"
proof -
  have "retry 3 10 f s0 = retry_loop 3 10 f 2 10 s1"
    unfolding retry_def
    using retry_loop_again [where f=f and s=s0 and k=1 and n=3 and d=10 and idle=0, OF assms(1,2)]
    by (simp add: numeral_2_eq_2)
  also have "\<dots> = retry_loop 3 10 f 3 20 s2"
    using retry_loop_again [where f=f and s=s1 and k=2 and n=3 and d=10 and idle=10, OF assms(3,4)]
    by (simp add: numeral_3_eq_3 numeral_2_eq_2)
  finally show ?thesis .
qed

lemma retry_third:
  assumes "f s0 = (Inl e1, s1)" and "is_Exception e1"
    and "f s1 = (Inl e2, s2)" and "is_Exception e2"
    and "f s2 = (Inr v, s3)"
  shows "retry 3 10 f s0 = ((Inr v, \<lparr>attempt_number = 3, idle_for = 20\<rparr>), s3)"
  using retry_two_failures [OF assms(1-4)]
    retry_loop_returns [where f=f and s=s2 and n=3 and d=10 and k=3 and idle=20, OF assms(5)]
  by simp

lemma retry_exhausted:
  assumes "f s0 = (Inl e1, s1)" and "is_Exception e1"
    and "f s1 = (Inl e2, s2)" and "is_Exception e2"
    and "f s2 = (Inl e3, s3)" and "is_Exception e3"
  shows "retry 3 10 f s0 =
           ((Inl (RetryError e3), \<lparr>attempt_number = 3, idle_for = 20\<rparr>), s3)"
  using retry_two_failures [OF assms(1-4)]
    retry_loop_stops [where f=f and s=s2 and n=3 and d=10 and k=3 and idle=20, OF assms(5,6)]
  by simp

lemma evaluate_body_failing:
  "evaluate_body failing_client q g p dep calls =
     (Inl (APIError (if calls = 0 then ''first failure''
                     else if calls = 1 then ''second failure'' else ''later failure'')),
      Suc calls)"
  by (simp add: evaluate_body_def failing_client_def)

lemma query_image_body_flaky:
  "query_image_body test_pillow flaky_client test_image q dep calls =
     (if calls < 2 then Inl (APIError ''timeout'') else Inr (Some (ustr ''CORRECT'')), Suc calls)"
  by (simp add: query_image_body_def flaky_client_def encode_image_def convert_def
      test_pillow_def test_image_def)

text \<open>
  C1 (as amended). When each of the three attempts of a wrapped call (\<open>query_image\<close> or
  \<open>evaluate\<close>) raises an \<open>Exception\<close>, the wrapper makes exactly three attempts,
  sleeps the fixed 10 seconds between attempts (20 seconds in all), leaves the world
  as the third attempt left it, and raises tenacity's \<open>RetryError\<close> carrying the
  exception of the third attempt.
\<close>

theorem wrapped_call_exhausts_three_attempts:
  assumes "wrapped = query_image lib create im quest dep \<and>
             body = query_image_body lib create im quest dep \<or>
           wrapped = evaluate create quest truth predicted dep \<and>
             body = evaluate_body create quest truth predicted dep"
    and "body s0 = (Inl e1, s1)" and "is_Exception e1"
    and "body s1 = (Inl e2, s2)" and "is_Exception e2"
    and "body s2 = (Inl e3, s3)" and "is_Exception e3"
  shows "wrapped s0 = ((Inl (RetryError e3), \<lparr>attempt_number = 3, idle_for = 20\<rparr>), s3)"
proof -
  have "wrapped = retry 3 10 body"
    using assms(1) by (auto simp: query_image_def evaluate_def)
  then show ?thesis
    using retry_exhausted [OF assms(2-7)] by simp
qed

theorem wrapped_call_exhausts_three_attempts_witness:
  "evaluate failing_client (ustr ''q'') (ustr ''a'') None (ustr ''gpt-4o'') 0 =
     ((Inl (RetryError (APIError ''later failure'')), \<lparr>attempt_number = 3, idle_for = 20\<rparr>), 3)"
proof -
  let ?body = "evaluate_body failing_client (ustr ''q'') (ustr ''a'') None (ustr ''gpt-4o'')"
  have h0: "evaluate failing_client (ustr ''q'') (ustr ''a'') None (ustr ''gpt-4o'') =
              query_image test_pillow failing_client test_image (ustr ''q'') (ustr ''gpt-4o'') \<and>
              ?body = query_image_body test_pillow failing_client test_image (ustr ''q'') (ustr ''gpt-4o'') \<or>
            evaluate failing_client (ustr ''q'') (ustr ''a'') None (ustr ''gpt-4o'') =
              evaluate failing_client (ustr ''q'') (ustr ''a'') None (ustr ''gpt-4o'') \<and>
              ?body = evaluate_body failing_client (ustr ''q'') (ustr ''a'') None (ustr ''gpt-4o'')"
    by simp
  have h1: "?body 0 = (Inl (APIError ''first failure''), 1)"
    by (simp add: evaluate_body_failing)
  have h2: "?body 1 = (Inl (APIError ''second failure''), 2)"
    by (simp add: evaluate_body_failing)
  have h3: "?body 2 = (Inl (APIError ''later failure''), 3)"
    by (simp add: evaluate_body_failing)
  have e: "is_Exception (APIError ''first failure'')" "is_Exception (APIError ''second failure'')"
    "is_Exception (APIError ''later failure'')"
    by simp_all
  show ?thesis
    by (rule wrapped_call_exhausts_three_attempts [OF h0 h1 e(1) h2 e(2) h3 e(3)])
qed

text \<open>
  C1 (as stated) fails: the third attempt of \<open>evaluate\<close> against the endpoint that
  always fails raises \<open>APIError ''later failure''\<close>, and that is not the exception the
  caller of \<open>evaluate\<close> receives.
\<close>

theorem retry_propagation_counterexample:
  "evaluate_body failing_client (ustr ''q'') (ustr ''a'') None (ustr ''gpt-4o'') 2 =
     (Inl (APIError ''later failure''), 3) \<and>
   fst (fst (evaluate failing_client (ustr ''q'') (ustr ''a'') None (ustr ''gpt-4o'') 0))
     \<noteq> Inl (APIError ''later failure'')"
proof -
  let ?body = "evaluate_body failing_client (ustr ''q'') (ustr ''a'') None (ustr ''gpt-4o'')"
  have h1: "?body 0 = (Inl (APIError ''first failure''), 1)"
    by (simp add: evaluate_body_failing)
  have h2: "?body 1 = (Inl (APIError ''second failure''), 2)"
    by (simp add: evaluate_body_failing)
  have h3: "?body 2 = (Inl (APIError ''later failure''), 3)"
    by (simp add: evaluate_body_failing)
  have "retry 3 10 ?body 0 =
          ((Inl (RetryError (APIError ''later failure'')), \<lparr>attempt_number = 3, idle_for = 20\<rparr>), 3)"
    by (rule retry_exhausted [OF h1 _ h2 _ h3]) simp_all
  then show ?thesis
    using h3 by (simp add: evaluate_def)
qed

text \<open>
  C4. When a wrapped call raises an \<open>Exception\<close> on its first and on its second attempt
  and returns on the third, the wrapper returns the value of the third attempt after
  exactly three attempts (and leaves the world as the third attempt left it).
\<close>

theorem wrapped_call_succeeds_on_third_attempt:
  assumes "wrapped = query_image lib create im quest dep \<and>
             body = query_image_body lib create im quest dep \<or>
           wrapped = evaluate create quest truth predicted dep \<and>
             body = evaluate_body create quest truth predicted dep"
    and "body s0 = (Inl e1, s1)" and "is_Exception e1"
    and "body s1 = (Inl e2, s2)" and "is_Exception e2"
    and "body s2 = (Inr v, s3)"
  shows "wrapped s0 = ((Inr v, \<lparr>attempt_number = 3, idle_for = 20\<rparr>), s3)"
proof -
  have "wrapped = retry 3 10 body"
    using assms(1) by (auto simp: query_image_def evaluate_def)
  then show ?thesis
    using retry_third [OF assms(2-6)] by simp
qed

theorem wrapped_call_succeeds_on_third_attempt_witness:
  "query_image test_pillow flaky_client test_image (ustr ''q'') (ustr ''gpt-4o'') 0 =
     ((Inr (Some (ustr ''CORRECT'')), \<lparr>attempt_number = 3, idle_for = 20\<rparr>), 3)"
proof -
  let ?w = "query_image test_pillow flaky_client test_image (ustr ''q'') (ustr ''gpt-4o'')"
  let ?body = "query_image_body test_pillow flaky_client test_image (ustr ''q'') (ustr ''gpt-4o'')"
  have h0: "?w = query_image test_pillow flaky_client test_image (ustr ''q'') (ustr ''gpt-4o'') \<and>
              ?body = query_image_body test_pillow flaky_client test_image (ustr ''q'') (ustr ''gpt-4o'') \<or>
            ?w = evaluate flaky_client (ustr ''q'') (ustr ''a'') None (ustr ''gpt-4o'') \<and>
              ?body = evaluate_body flaky_client (ustr ''q'') (ustr ''a'') None (ustr ''gpt-4o'')"
    by simp
  have h1: "?body 0 = (Inl (APIError ''timeout''), 1)"
    by (simp add: query_image_body_flaky)
  have h2: "?body 1 = (Inl (APIError ''timeout''), 2)"
    by (simp add: query_image_body_flaky)
  have h3: "?body 2 = (Inr (Some (ustr ''CORRECT'')), 3)"
    by (simp add: query_image_body_flaky)
  have e: "is_Exception (APIError ''timeout'')"
    by simp
  show ?thesis
    by (rule wrapped_call_succeeds_on_third_attempt [OF h0 h1 e h2 e h3])
qed

section \<open>Properties of the accuracy aggregation\<close>

lemma accuracy_comparison_nonempty:
  assumes "rows \<noteq> []"
  shows "accuracy_comparison rows =
     Inr \<lparr>baseline_accuracy =
            of_nat (value_counts_get (map base_eval rows) (ustr ''CORRECT'')) / of_nat (length rows),
          fine_tuned_accuracy =
            of_nat (value_counts_get (map ft_eval rows) (ustr ''CORRECT'')) / of_nat (length rows)\<rparr>"
  using assms by (simp add: accuracy_comparison_def truediv_def Let_def)

lemma accuracy_comparison_empty: "accuracy_comparison [] = Inl ZeroDivisionError"
  by (simp add: accuracy_comparison_def truediv_def value_counts_get_def)

text \<open>
  C2 (as stated) fails: over zero evaluated rows the aggregation divides by zero and
  raises \<open>ZeroDivisionError\<close>; no value is reported.
\<close>

theorem accuracy_zero_rows_counterexample:
  "accuracy_comparison [] = Inl ZeroDivisionError"
  by (simp add: accuracy_comparison_def truediv_def value_counts_get_def)

text \<open>
  C2 (as amended). The aggregation raises \<open>ZeroDivisionError\<close> exactly when there are
  zero evaluated rows, and reports a value exactly when there is at least one row.
\<close>

theorem accuracy_raises_iff_zero_rows:
  "(accuracy_comparison rows = Inl ZeroDivisionError \<longleftrightarrow> rows = []) \<and>
   ((\<exists>c. accuracy_comparison rows = Inr c) \<longleftrightarrow> rows \<noteq> [])"
proof (cases "rows = []")
  case True
  then show ?thesis by (simp add: accuracy_comparison_empty)
next
  case False
  then show ?thesis by (simp add: accuracy_comparison_nonempty)
qed

theorem accuracy_raises_iff_zero_rows_witness:
  "accuracy_comparison [] = Inl ZeroDivisionError \<and>
   (\<exists>c. accuracy_comparison [\<lparr>base_eval = Some (ustr ''CORRECT''), ft_eval = None\<rparr>] = Inr c)"
  using accuracy_raises_iff_zero_rows [of "[]"]
    accuracy_raises_iff_zero_rows [of "[\<lparr>base_eval = Some (ustr ''CORRECT''), ft_eval = None\<rparr>]"]
  by simp

text \<open>
  C8. Whenever there is at least one evaluated row an accuracy is reported, and every
  reported accuracy (baseline and fine-tuned) is the number of rows whose verdict is
  the string \<open>CORRECT\<close> divided by the number of rows, and lies between 0 and 1.
\<close>

theorem accuracy_is_correct_over_total:
  "(rows \<noteq> [] \<longrightarrow> (\<exists>c. accuracy_comparison rows = Inr c)) \<and>
   (\<forall>c. accuracy_comparison rows = Inr c \<longrightarrow>
      baseline_accuracy c =
        of_nat (length (filter (\<lambda>r. base_eval r = Some (ustr ''CORRECT'')) rows))
          / of_nat (length rows) \<and>
      fine_tuned_accuracy c =
        of_nat (length (filter (\<lambda>r. ft_eval r = Some (ustr ''CORRECT'')) rows))
          / of_nat (length rows) \<and>
      0 \<le> baseline_accuracy c \<and> baseline_accuracy c \<le> 1 \<and>
      0 \<le> fine_tuned_accuracy c \<and> fine_tuned_accuracy c \<le> 1)"
proof (cases "rows = []")
  case True
  then show ?thesis by (simp add: accuracy_comparison_empty)
next
  case False
  have b: "value_counts_get (map base_eval rows) (ustr ''CORRECT'')
         = length (filter (\<lambda>r. base_eval r = Some (ustr ''CORRECT'')) rows)"
    by (simp add: value_counts_get_def filter_map comp_def)
  have f: "value_counts_get (map ft_eval rows) (ustr ''CORRECT'')
         = length (filter (\<lambda>r. ft_eval r = Some (ustr ''CORRECT'')) rows)"
    by (simp add: value_counts_get_def filter_map comp_def)
  have pos: "0 < length rows" using False by simp
  show ?thesis
    using False accuracy_comparison_nonempty [OF False] b f pos
    by (auto simp: divide_le_eq_1)
qed

theorem accuracy_is_correct_over_total_witness:
  "accuracy_comparison
     [\<lparr>base_eval = Some (ustr ''CORRECT''), ft_eval = Some (ustr ''CORRECT'')\<rparr>,
      \<lparr>base_eval = Some (ustr ''INCORRECT''), ft_eval = Some (ustr ''CORRECT'')\<rparr>,
      \<lparr>base_eval = None, ft_eval = Some (ustr ''INCORRECT'')\<rparr>,
      \<lparr>base_eval = Some (ustr ''CORRECT''), ft_eval = Some (ustr ''CORRECT'')\<rparr>]
   = Inr \<lparr>baseline_accuracy = 1 / 2, fine_tuned_accuracy = 3 / 4\<rparr>"
proof -
  let ?rows = "[\<lparr>base_eval = Some (ustr ''CORRECT''), ft_eval = Some (ustr ''CORRECT'')\<rparr>,
      \<lparr>base_eval = Some (ustr ''INCORRECT''), ft_eval = Some (ustr ''CORRECT'')\<rparr>,
      \<lparr>base_eval = None, ft_eval = Some (ustr ''INCORRECT'')\<rparr>,
      \<lparr>base_eval = Some (ustr ''CORRECT''), ft_eval = Some (ustr ''CORRECT'')\<rparr>]"
  have ne: "?rows \<noteq> []" by simp
  from accuracy_is_correct_over_total [of ?rows] ne
  obtain c where c: "accuracy_comparison ?rows = Inr c" by blast
  with accuracy_is_correct_over_total [of ?rows]
  have "baseline_accuracy c = 1 / 2 \<and> fine_tuned_accuracy c = 3 / 4"
    by (simp add: ustr_def)
  then have "c = \<lparr>baseline_accuracy = 1 / 2, fine_tuned_accuracy = 3 / 4\<rparr>"
    by (cases c) simp
  with c show ?thesis by simp
qed

section \<open>Properties of the metrics smoothing and plotting\<close>

lemma and_then_simps [simp]:
  "and_then (Inl e) f = Inl e" "and_then (Inr x) f = f x"
  by (simp_all add: and_then_def)

lemma getitem_rolling:
  "getitem (rolling_mean_df w df) name =
     (case getitem df name of Inl e \<Rightarrow> Inl e | Inr c \<Rightarrow> Inr (rolling_mean w c))"
  by (simp add: getitem_def rolling_mean_df_def map_of_map split: option.splits)

lemma getitem_select_rows:
  "getitem (select_rows keep df) name =
     (case getitem df name of Inl e \<Rightarrow> Inl e | Inr c \<Rightarrow> Inr (select keep c))"
  by (simp add: getitem_def select_rows_def map_of_map split: option.splits)

lemma select_twice:
  "select (ne (select (notna vl) vl) (- 1)) (select (notna vl) c) = valid_rows vl c"
proof (induction c arbitrary: vl)
  case Nil
  then show ?case by (simp add: valid_rows_def select_def)
next
  case (Cons x c)
  show ?case
  proof (cases vl)
    case Nil
    then show ?thesis by (simp add: valid_rows_def select_def notna_def ne_def)
  next
    case (Cons v vl')
    with Cons.IH [of vl'] show ?thesis
      by (simp add: valid_rows_def select_def notna_def ne_def)
  qed
qed

lemma filter_valid_char:
  "getitem df ''valid_loss'' = Inr vl \<Longrightarrow>
   filter_valid df =
     Inr (select_rows (ne (select (notna vl) vl) (- 1)) (select_rows (notna vl) df))"
  by (simp add: filter_valid_def getitem_select_rows Let_def)

lemma getitem_filter_valid:
  assumes "getitem df ''valid_loss'' = Inr vl" and "filter_valid df = Inr fdf"
  shows "getitem fdf name =
           (case getitem df name of Inl e \<Rightarrow> Inl e | Inr c \<Rightarrow> Inr (valid_rows vl c))"
proof -
  have "fdf = select_rows (ne (select (notna vl) vl) (- 1)) (select_rows (notna vl) df)"
    using assms(2) filter_valid_char [OF assms(1)] by simp
  then show ?thesis
    by (cases "getitem df name") (simp_all add: getitem_select_rows select_twice)
qed

lemma filter_valid_missing:
  "getitem df ''valid_loss'' = Inl e \<Longrightarrow> filter_valid df = Inl e"
  by (simp add: filter_valid_def)

lemma show_ft_metrics_char:
  "show_ft_metrics df w =
     and_then (getitem df ''valid_loss'') (\<lambda>vl.
     and_then (getitem df ''step'') (\<lambda>step.
     and_then (getitem df ''train_loss'') (\<lambda>tl.
     and_then (getitem df ''train_mean_token_accuracy'') (\<lambda>ta.
     and_then (getitem df ''valid_mean_token_accuracy'') (\<lambda>va.
       Inr \<lparr>train_loss_curve = (rolling_mean w step, rolling_mean w tl),
            train_accuracy_curve = (rolling_mean w step, rolling_mean w ta),
            valid_loss_curve = (rolling_mean w (valid_rows vl step), rolling_mean w (valid_rows vl vl)),
            valid_accuracy_curve = (rolling_mean w (valid_rows vl step), rolling_mean w (valid_rows vl va))\<rparr>)))))"
proof (cases "getitem df ''valid_loss''")
  case (Inl e)
  then show ?thesis by (simp add: show_ft_metrics_def filter_valid_missing)
next
  case vl: (Inr vl)
  let ?fdf = "select_rows (ne (select (notna vl) vl) (- 1)) (select_rows (notna vl) df)"
  have fv: "filter_valid df = Inr ?fdf" by (rule filter_valid_char [OF vl])
  note g = getitem_filter_valid [OF vl fv]
  show ?thesis
    apply (cases "getitem df ''step''")
     apply (simp add: show_ft_metrics_def fv vl getitem_rolling Let_def)
    apply (cases "getitem df ''train_loss''")
     apply (simp add: show_ft_metrics_def fv vl getitem_rolling Let_def)
    apply (cases "getitem df ''train_mean_token_accuracy''")
     apply (simp add: show_ft_metrics_def fv vl getitem_rolling Let_def)
    apply (cases "getitem df ''valid_mean_token_accuracy''")
     apply (simp add: show_ft_metrics_def fv vl getitem_rolling g Let_def)
    apply (simp add: show_ft_metrics_def fv vl getitem_rolling g Let_def)
    done
qed

lemma map_filter_id_length: "length (List.map_filter (\<lambda>x. x) win) \<le> length win"
  by (induction win) (auto simp: List.map_filter_simps split: option.splits)

lemma map_filter_id_full:
  "None \<notin> set win \<Longrightarrow> List.map_filter (\<lambda>x. x) win = map the win"
proof (induction win)
  case Nil
  then show ?case by (simp add: List.map_filter_simps)
next
  case (Cons x win)
  then show ?case by (cases x) (simp_all add: List.map_filter_simps)
qed

lemma map_filter_id_short:
  "None \<in> set win \<Longrightarrow> length (List.map_filter (\<lambda>x. x) win) < length win"
proof (induction win)
  case Nil
  then show ?case by simp
next
  case (Cons x win)
  show ?case
  proof (cases x)
    case None
    then show ?thesis
      using map_filter_id_length [of win] by (simp add: List.map_filter_simps)
  next
    case (Some a)
    with Cons show ?thesis by (simp add: List.map_filter_simps)
  qed
qed

lemma window_mean_full:
  "length win = w \<Longrightarrow> window_mean w win = nan_mean win"
proof (cases "None \<in> set win")
  case True
  assume "length win = w"
  with True map_filter_id_short [OF True] show ?thesis
    by (simp add: window_mean_def nan_mean_def Let_def)
next
  case False
  assume "length win = w"
  with False map_filter_id_full [OF False] show ?thesis
    by (auto simp: window_mean_def nan_mean_def Let_def)
qed

lemma window_mean_short:
  "length win < w \<Longrightarrow> window_mean w win = None"
  using map_filter_id_length [of win] by (simp add: window_mean_def Let_def)

lemma rolling_mean_spec: "rolling_mean w xs = spec_rolling_mean w xs"
proof -
  have "window_mean w (window_at w xs i) =
        (if i < w - 1 then None else nan_mean (take w (drop (Suc i - w) xs)))"
    if "i < length xs" for i
  proof (cases "i < w - 1")
    case True
    then have "length (window_at w xs i) < w"
      using that by (simp add: window_at_def)
    then show ?thesis using True by (simp add: window_mean_short)
  next
    case False
    then have le: "w \<le> Suc i" by simp
    have eq: "window_at w xs i = take w (drop (Suc i - w) xs)"
      using le by (simp add: window_at_def drop_take)
    have "length (window_at w xs i) = w"
      using le that by (simp add: window_at_def)
    then show ?thesis using False eq by (simp add: window_mean_full)
  qed
  then show ?thesis
    by (simp add: rolling_mean_def spec_rolling_mean_def)
qed

lemma metrics_table_plots: "show_ft_metrics metrics_table 2 = Inr metrics_curves"
  by (simp add: show_ft_metrics_char metrics_table_def metrics_curves_def getitem_def
      valid_rows_def rolling_mean_spec spec_rolling_mean_def nan_mean_def upt_rec)

lemma getitem_Inr_iff: "(\<exists>c. getitem df name = Inr c) \<longleftrightarrow> name \<in> fst ` set df"
proof (cases "map_of df name")
  case None
  then have "name \<notin> fst ` set df" by (simp add: map_of_eq_None_iff)
  with None show ?thesis by (simp add: getitem_def)
next
  case (Some c)
  then have "name \<in> fst ` set df"
    by (metis domI dom_map_of_conv_image_fst)
  with Some show ?thesis by (simp add: getitem_def)
qed

lemma show_ft_metrics_columns:
  assumes "show_ft_metrics df w = Inr cs"
  obtains step tl ta vl va where
    "getitem df ''step'' = Inr step"
    "getitem df ''train_loss'' = Inr tl"
    "getitem df ''train_mean_token_accuracy'' = Inr ta"
    "getitem df ''valid_loss'' = Inr vl"
    "getitem df ''valid_mean_token_accuracy'' = Inr va"
proof -
  from assms obtain vl where vl: "getitem df ''valid_loss'' = Inr vl"
    by (cases "getitem df ''valid_loss''") (simp_all add: show_ft_metrics_char)
  from assms vl obtain step where step: "getitem df ''step'' = Inr step"
    by (cases "getitem df ''step''") (simp_all add: show_ft_metrics_char)
  from assms vl step obtain tl where tl: "getitem df ''train_loss'' = Inr tl"
    by (cases "getitem df ''train_loss''") (simp_all add: show_ft_metrics_char)
  from assms vl step tl obtain ta
    where ta: "getitem df ''train_mean_token_accuracy'' = Inr ta"
    by (cases "getitem df ''train_mean_token_accuracy''")
      (simp_all add: show_ft_metrics_char)
  from assms vl step tl ta obtain va
    where va: "getitem df ''valid_mean_token_accuracy'' = Inr va"
    by (cases "getitem df ''valid_mean_token_accuracy''")
      (simp_all add: show_ft_metrics_char)
  from that vl step tl ta va show thesis by blast
qed

text \<open>
  C10. Whenever \<open>show_ft_metrics\<close> plots, the two validation curves are the rolling
  means of the \<open>step\<close>, \<open>valid_loss\<close> and \<open>valid_mean_token_accuracy\<close> columns
  restricted to the rows whose \<open>valid_loss\<close> is present and not \<open>-1.0\<close>, and the two
  training curves are the rolling means of the unfiltered columns.
\<close>

theorem validation_curves_use_filtered_rows:
  assumes "show_ft_metrics results_df w = Inr cs"
  shows "\<exists>step tl ta vl va.
           getitem results_df ''step'' = Inr step \<and>
           getitem results_df ''train_loss'' = Inr tl \<and>
           getitem results_df ''train_mean_token_accuracy'' = Inr ta \<and>
           getitem results_df ''valid_loss'' = Inr vl \<and>
           getitem results_df ''valid_mean_token_accuracy'' = Inr va \<and>
           train_loss_curve cs = (rolling_mean w step, rolling_mean w tl) \<and>
           train_accuracy_curve cs = (rolling_mean w step, rolling_mean w ta) \<and>
           valid_loss_curve cs =
             (rolling_mean w (valid_rows vl step), rolling_mean w (valid_rows vl vl)) \<and>
           valid_accuracy_curve cs =
             (rolling_mean w (valid_rows vl step), rolling_mean w (valid_rows vl va))"
proof -
  from assms obtain step tl ta vl va where
    c: "getitem results_df ''step'' = Inr step"
    "getitem results_df ''train_loss'' = Inr tl"
    "getitem results_df ''train_mean_token_accuracy'' = Inr ta"
    "getitem results_df ''valid_loss'' = Inr vl"
    "getitem results_df ''valid_mean_token_accuracy'' = Inr va"
    by (rule show_ft_metrics_columns)
  with assms show ?thesis
    by (auto simp: show_ft_metrics_char)
qed

theorem validation_curves_use_filtered_rows_witness:
  "show_ft_metrics metrics_table 2 = Inr metrics_curves \<and>
   (\<exists>step tl ta vl va.
           getitem metrics_table ''step'' = Inr step \<and>
           getitem metrics_table ''train_loss'' = Inr tl \<and>
           getitem metrics_table ''train_mean_token_accuracy'' = Inr ta \<and>
           getitem metrics_table ''valid_loss'' = Inr vl \<and>
           getitem metrics_table ''valid_mean_token_accuracy'' = Inr va \<and>
           train_loss_curve metrics_curves = (rolling_mean 2 step, rolling_mean 2 tl) \<and>
           train_accuracy_curve metrics_curves = (rolling_mean 2 step, rolling_mean 2 ta) \<and>
           valid_loss_curve metrics_curves =
             (rolling_mean 2 (valid_rows vl step), rolling_mean 2 (valid_rows vl vl)) \<and>
           valid_accuracy_curve metrics_curves =
             (rolling_mean 2 (valid_rows vl step), rolling_mean 2 (valid_rows vl va)))"
  using metrics_table_plots validation_curves_use_filtered_rows [OF metrics_table_plots]
  by blast

lemma rolling_mean_df_spec:
  "rolling_mean_df w df = map (\<lambda>(name, col). (name, spec_rolling_mean w col)) df"
  by (simp add: rolling_mean_df_def rolling_mean_spec)

text \<open>
  C6. For every metrics table and window size \<open>w\<close>, smoothing gives each column the
  specified rolling mean (the first \<open>w - 1\<close> rows NaN, every later row the mean of the
  \<open>w\<close> values ending there), and the smoothed training series that
  \<open>show_ft_metrics\<close> plots are these.
\<close>

theorem smoothing_is_rolling_window:
  "rolling_mean_df w df = map (\<lambda>(name, col). (name, spec_rolling_mean w col)) df \<and>
   (\<forall>cs. show_ft_metrics df w = Inr cs \<longrightarrow>
      (\<exists>tl ta. getitem df ''train_loss'' = Inr tl \<and>
               getitem df ''train_mean_token_accuracy'' = Inr ta \<and>
               snd (train_loss_curve cs) = spec_rolling_mean w tl \<and>
               snd (train_accuracy_curve cs) = spec_rolling_mean w ta))"
proof (intro conjI allI impI)
  show "rolling_mean_df w df = map (\<lambda>(name, col). (name, spec_rolling_mean w col)) df"
    by (rule rolling_mean_df_spec)
next
  fix cs
  assume a: "show_ft_metrics df w = Inr cs"
  then obtain step tl ta vl va where
    step: "getitem df ''step'' = Inr step" and
    tl: "getitem df ''train_loss'' = Inr tl" and
    ta: "getitem df ''train_mean_token_accuracy'' = Inr ta" and
    vl: "getitem df ''valid_loss'' = Inr vl" and
    va: "getitem df ''valid_mean_token_accuracy'' = Inr va"
    by (rule show_ft_metrics_columns)
  from a vl step tl ta va
  show "\<exists>tl ta. getitem df ''train_loss'' = Inr tl \<and>
               getitem df ''train_mean_token_accuracy'' = Inr ta \<and>
               snd (train_loss_curve cs) = spec_rolling_mean w tl \<and>
               snd (train_accuracy_curve cs) = spec_rolling_mean w ta"
    by (auto simp: show_ft_metrics_char rolling_mean_spec)
qed

theorem smoothing_is_rolling_window_witness:
  "show_ft_metrics metrics_table 2 = Inr metrics_curves \<and>
   snd (train_loss_curve metrics_curves) = [None, Some 3, Some 2, Some 1] \<and>
   spec_rolling_mean 2 [Some 4, Some 2, Some 2, Some 0] = [None, Some 3, Some 2, Some 1]"
proof -
  from smoothing_is_rolling_window [of 2 metrics_table] metrics_table_plots
  obtain tl ta where "getitem metrics_table ''train_loss'' = Inr tl"
    and "snd (train_loss_curve metrics_curves) = spec_rolling_mean 2 tl"
    by blast
  moreover have "getitem metrics_table ''train_loss'' = Inr [Some 4, Some 2, Some 2, Some 0]"
    by (simp add: getitem_def metrics_table_def)
  ultimately have "snd (train_loss_curve metrics_curves)
      = spec_rolling_mean 2 [Some 4, Some 2, Some 2, Some 0]"
    by simp
  moreover have "snd (train_loss_curve metrics_curves) = [None, Some 3, Some 2, Some 1]"
    by (simp add: metrics_curves_def)
  ultimately show ?thesis
    using metrics_table_plots by simp
qed

text \<open>
  C7 (as amended). \<open>show_ft_metrics\<close> plots exactly when the table has the columns
  \<open>step\<close>, \<open>train_loss\<close>, \<open>train_mean_token_accuracy\<close>, \<open>valid_loss\<close> and
  \<open>valid_mean_token_accuracy\<close> (other columns may be present), and what it plots
  depends on these five columns only.
\<close>

theorem visualizer_reads_five_columns:
  "((\<exists>cs. show_ft_metrics df w = Inr cs) \<longleftrightarrow> set metric_columns \<subseteq> fst ` set df) \<and>
   (\<forall>df'. (\<forall>name \<in> set metric_columns. getitem df' name = getitem df name) \<longrightarrow>
       show_ft_metrics df' w = show_ft_metrics df w)"
proof (intro conjI allI impI)
  show "(\<exists>cs. show_ft_metrics df w = Inr cs) \<longleftrightarrow> set metric_columns \<subseteq> fst ` set df"
  proof
    assume "\<exists>cs. show_ft_metrics df w = Inr cs"
    then obtain cs where "show_ft_metrics df w = Inr cs" ..
    then have "\<forall>name \<in> set metric_columns. \<exists>c. getitem df name = Inr c"
      by (rule show_ft_metrics_columns) (simp add: metric_columns_def)
    then show "set metric_columns \<subseteq> fst ` set df"
      using getitem_Inr_iff [of df] by blast
  next
    assume "set metric_columns \<subseteq> fst ` set df"
    then have "\<forall>name \<in> set metric_columns. \<exists>c. getitem df name = Inr c"
      using getitem_Inr_iff [of df] by blast
    then show "\<exists>cs. show_ft_metrics df w = Inr cs"
      by (auto simp: metric_columns_def show_ft_metrics_char)
  qed
next
  fix df'
  assume "\<forall>name \<in> set metric_columns. getitem df' name = getitem df name"
  then show "show_ft_metrics df' w = show_ft_metrics df w"
    by (simp add: metric_columns_def show_ft_metrics_char)
qed

theorem visualizer_reads_five_columns_witness:
  "set metric_columns \<subseteq> fst ` set metrics_table \<and>
   (\<exists>cs. show_ft_metrics metrics_table 2 = Inr cs) \<and>
   show_ft_metrics (butlast metrics_table) 2 = show_ft_metrics metrics_table 2"
proof -
  have sub: "set metric_columns \<subseteq> fst ` set metrics_table"
    by (simp add: metric_columns_def metrics_table_def)
  have same: "\<forall>name \<in> set metric_columns.
      getitem (butlast metrics_table) name = getitem metrics_table name"
    by (simp add: metric_columns_def metrics_table_def getitem_def)
  from visualizer_reads_five_columns [of metrics_table 2] sub same
  show ?thesis by blast
qed

text \<open>
  C7 (as stated) fails: on a table whose columns are named as the specification's
  metrics row, \<open>show_ft_metrics\<close> raises \<open>KeyError\<close> for \<open>valid_loss\<close>.
\<close>

theorem spec_column_names_counterexample:
  "map fst spec_named_table =
     [''step'', ''train_loss'', ''train_accuracy'', ''validation_loss'', ''validation_accuracy''] \<and>
   show_ft_metrics spec_named_table 5 = Inl (KeyError ''valid_loss'')"
  by (simp add: spec_named_table_def show_ft_metrics_char getitem_def)

section \<open>Properties of base64 and \<open>encode_image\<close>\<close>

lemma of_char_char_of: "n < 256 \<Longrightarrow> (of_char (char_of n) :: nat) = n"
  by (simp add: of_char_of)

lemma of_char_b64char:
  "i < 64 \<Longrightarrow> (of_char (b64char i) :: nat) =
     (if i < 26 then 65 + i else if i < 52 then 71 + i else if i < 62 then i - 4
      else if i = 62 then 43 else 47)"
  by (simp add: b64char_def of_char_char_of)

lemma b64val_b64char: "i < 64 \<Longrightarrow> b64val (b64char i) = Some i"
  unfolding b64val_def Let_def by (simp add: of_char_b64char) arith

lemma b64char_not_pad: "i < 64 \<Longrightarrow> b64char i \<noteq> CHR ''=''"
proof
  assume "i < 64" and "b64char i = CHR ''=''"
  then have "(of_char (b64char i) :: nat) = 61" by simp
  with \<open>i < 64\<close> show False by (simp add: of_char_b64char split: if_splits)
qed

lemma div_mod_decomp:
  fixes q m r :: nat
  assumes "r < m"
  shows "(q * m + r) div m = q" "(q * m + r) mod m = r"
  using assms by simp_all

lemma sextets_recombine:
  fixes n :: nat
  shows "(n div 262144) * 262144 + (n div 4096 mod 64) * 4096 + (n div 64 mod 64) * 64 + n mod 64 = n"
proof -
  define q1 where "q1 = n div 64"
  define q2 where "q2 = q1 div 64"
  define q3 where "q3 = q2 div 64"
  have e2: "n div 4096 = q2" unfolding q2_def q1_def by (simp add: div_mult2_eq)
  have e3: "n div 262144 = q3" unfolding q3_def q2_def q1_def by (simp add: div_mult2_eq)
  have n: "n = 64 * q1 + n mod 64" unfolding q1_def by simp
  have q1: "q1 = 64 * q2 + q1 mod 64" unfolding q2_def by simp
  have q2: "q2 = 64 * q3 + q2 mod 64" unfolding q3_def by simp
  have "q3 * 262144 + (q2 mod 64) * 4096 + (q1 mod 64) * 64 + n mod 64
      = 64 * (64 * (64 * q3 + q2 mod 64) + q1 mod 64) + n mod 64"
    by simp
  also have "\<dots> = 64 * (64 * q2 + q1 mod 64) + n mod 64" using q2 by simp
  also have "\<dots> = 64 * q1 + n mod 64" using q1 by simp
  also have "\<dots> = n" using n by simp
  finally show ?thesis unfolding e2 e3 q1_def [symmetric] .
qed

lemma unat_byte: "unat (a :: 8 word) < 256"
  using unsigned_less [of a] by simp

lemma bytes3:
  fixes a b c :: nat
  assumes "a < 256" "b < 256" "c < 256"
  defines "n \<equiv> a * 65536 + b * 256 + c"
  shows "n div 262144 < 64" "n div 65536 = a" "n div 256 mod 256 = b" "n mod 256 = c"
proof -
  have "n < 64 * 262144" using assms by simp
  then show "n div 262144 < 64" by (simp add: less_mult_imp_div_less)
  have r: "b * 256 + c < 65536" using assms by simp
  have "n = a * 65536 + (b * 256 + c)" by (simp add: n_def)
  then show "n div 65536 = a" using div_mod_decomp(1) [OF r, of a] by simp
  have n2: "n = (a * 256 + b) * 256 + c" by (simp add: n_def)
  then have d: "n div 256 = a * 256 + b" using div_mod_decomp(1) [OF assms(3), of "a * 256 + b"] by simp
  show "n div 256 mod 256 = b" unfolding d using div_mod_decomp(2) [OF assms(2), of a] by simp
  show "n mod 256 = c" using n2 div_mod_decomp(2) [OF assms(3), of "a * 256 + b"] by simp
qed

lemma three_sextets:
  fixes n :: nat
  shows "(n div 262144) * 4096 + (n div 4096 mod 64) * 64 + n div 64 mod 64 = n div 64"
proof -
  define q1 where "q1 = n div 64"
  define q2 where "q2 = q1 div 64"
  define q3 where "q3 = q2 div 64"
  have e2: "n div 4096 = q2" unfolding q2_def q1_def by (simp add: div_mult2_eq)
  have e3: "n div 262144 = q3" unfolding q3_def q2_def q1_def by (simp add: div_mult2_eq)
  have q1: "q1 = 64 * q2 + q1 mod 64" unfolding q2_def by simp
  have q2: "q2 = 64 * q3 + q2 mod 64" unfolding q3_def by simp
  have "q3 * 4096 + (q2 mod 64) * 64 + q1 mod 64 = 64 * (64 * q3 + q2 mod 64) + q1 mod 64"
    by simp
  also have "\<dots> = 64 * q2 + q1 mod 64" using q2 by simp
  also have "\<dots> = q1" using q1 by simp
  finally show ?thesis unfolding e2 e3 q1_def [symmetric] .
qed

lemma two_sextets:
  fixes n :: nat
  shows "(n div 262144) * 64 + n div 4096 mod 64 = n div 4096"
proof -
  define q2 where "q2 = n div 4096"
  have e3: "n div 262144 = q2 div 64" unfolding q2_def by (simp add: div_mult2_eq)
  have "q2 div 64 * 64 + q2 mod 64 = q2" by simp
  then show ?thesis unfolding e3 q2_def [symmetric] .
qed

lemma bytes2:
  fixes a b :: nat
  assumes "a < 256" "b < 256"
  defines "n \<equiv> a * 65536 + b * 256"
  shows "n div 262144 < 64" "n div 64 div 1024 = a" "n div 64 div 4 mod 256 = b"
proof -
  have "n < 64 * 262144" using assms by simp
  then show "n div 262144 < 64" by (simp add: less_mult_imp_div_less)
  have "n = (a * 1024 + b * 4) * 64" by (simp add: n_def)
  then have d: "n div 64 = a * 1024 + b * 4" by simp
  have r: "b * 4 < 1024" using assms by simp
  show "n div 64 div 1024 = a" unfolding d using div_mod_decomp(1) [OF r, of a] by simp
  have "a * 1024 + b * 4 = (a * 256 + b) * 4" by simp
  then have "(a * 1024 + b * 4) div 4 = a * 256 + b" by simp
  then show "n div 64 div 4 mod 256 = b"
    unfolding d using div_mod_decomp(2) [OF assms(2), of a] by simp
qed

lemma bytes1:
  fixes a :: nat
  assumes "a < 256"
  defines "n \<equiv> a * 65536"
  shows "n div 262144 < 64" "n div 4096 div 16 = a"
proof -
  have "n < 64 * 262144" using assms by simp
  then show "n div 262144 < 64" by (simp add: less_mult_imp_div_less)
  have "n = (a * 16) * 4096" by (simp add: n_def)
  then have d: "n div 4096 = a * 16" by simp
  show "n div 4096 div 16 = a" unfolding d by simp
qed

lemma b64decode_quad:
  assumes "s1 < 64" "s2 < 64" "s3 < 64" "s4 < 64"
  shows "b64decode (b64char s1 # b64char s2 # b64char s3 # b64char s4 # rest) =
           (case b64decode rest of
              None \<Rightarrow> None
            | Some bs \<Rightarrow>
                Some (of_nat ((s1 * 262144 + s2 * 4096 + s3 * 64 + s4) div 65536)
                      # of_nat ((s1 * 262144 + s2 * 4096 + s3 * 64 + s4) div 256 mod 256)
                      # of_nat ((s1 * 262144 + s2 * 4096 + s3 * 64 + s4) mod 256) # bs))"
  using assms by (simp add: b64val_b64char b64char_not_pad Let_def split: option.split)

lemma b64decode_triple:
  assumes "s1 < 64" "s2 < 64" "s3 < 64"
  shows "b64decode [b64char s1, b64char s2, b64char s3, CHR ''=''] =
           Some [of_nat ((s1 * 4096 + s2 * 64 + s3) div 1024),
                 of_nat ((s1 * 4096 + s2 * 64 + s3) div 4 mod 256)]"
  using assms by (simp add: b64val_b64char b64char_not_pad Let_def)

lemma b64decode_pair:
  assumes "s1 < 64" "s2 < 64"
  shows "b64decode [b64char s1, b64char s2, CHR ''='', CHR ''=''] =
           Some [of_nat ((s1 * 64 + s2) div 16)]"
  using assms by (simp add: b64val_b64char Let_def)

lemma b64decode_b64encode: "b64decode (b64encode bs) = Some bs"
proof (induction bs rule: b64encode.induct)
  case (1 a b c rest)
  define n where "n = unat a * 65536 + unat b * 256 + unat c"
  note bts = bytes3 [OF unat_byte unat_byte unat_byte, of a b c, folded n_def]
  have enc: "b64encode (a # b # c # rest) =
      b64char (n div 262144) # b64char (n div 4096 mod 64) # b64char (n div 64 mod 64)
        # b64char (n mod 64) # b64encode rest"
    by (simp add: Let_def n_def)
  have s: "n div 262144 < 64" "n div 4096 mod 64 < 64" "n div 64 mod 64 < 64" "n mod 64 < 64"
    using bts(1) by simp_all
  have "b64decode (b64encode (a # b # c # rest)) =
      Some (of_nat (n div 65536) # of_nat (n div 256 mod 256) # of_nat (n mod 256) # rest)"
    unfolding enc b64decode_quad [OF s] "1.IH" sextets_recombine by simp
  then show ?case unfolding bts(2-4) by simp
next
  case (2 a b)
  define n where "n = unat a * 65536 + unat b * 256"
  note bts = bytes2 [OF unat_byte unat_byte, of a b, folded n_def]
  have enc: "b64encode [a, b] =
      [b64char (n div 262144), b64char (n div 4096 mod 64), b64char (n div 64 mod 64), CHR ''='']"
    by (simp add: Let_def n_def)
  have s: "n div 262144 < 64" "n div 4096 mod 64 < 64" "n div 64 mod 64 < 64"
    using bts(1) by simp_all
  have "b64decode (b64encode [a, b]) =
      Some [of_nat (n div 64 div 1024), of_nat (n div 64 div 4 mod 256)]"
    unfolding enc b64decode_triple [OF s] three_sextets by simp
  then show ?case unfolding bts(2-3) by simp
next
  case (3 a)
  define n where "n = unat a * 65536"
  note bts = bytes1 [OF unat_byte, of a, folded n_def]
  have enc: "b64encode [a] =
      [b64char (n div 262144), b64char (n div 4096 mod 64), CHR ''='', CHR ''='']"
    by (simp add: Let_def n_def)
  have s: "n div 262144 < 64" "n div 4096 mod 64 < 64"
    using bts(1) by simp_all
  have "b64decode (b64encode [a]) = Some [of_nat (n div 4096 div 16)]"
    unfolding enc b64decode_pair [OF s] two_sextets by simp
  then show ?case unfolding bts(2) by simp
next
  case 4
  show ?case by simp
qed

lemma b64encode_chars: "c \<in> set (b64encode bs) \<Longrightarrow> b64val c \<noteq> None \<or> c = CHR ''=''"
proof (induction bs rule: b64encode.induct)
  case (1 a b c' rest)
  define n where "n = unat a * 65536 + unat b * 256 + unat c'"
  note bts = bytes3 [OF unat_byte unat_byte unat_byte, of a b c', folded n_def]
  have enc: "b64encode (a # b # c' # rest) =
      b64char (n div 262144) # b64char (n div 4096 mod 64) # b64char (n div 64 mod 64)
        # b64char (n mod 64) # b64encode rest"
    by (simp add: Let_def n_def)
  have s: "n div 262144 < 64" "n div 4096 mod 64 < 64" "n div 64 mod 64 < 64" "n mod 64 < 64"
    using bts(1) by simp_all
  from "1.prems" have "c \<in> {b64char (n div 262144), b64char (n div 4096 mod 64),
      b64char (n div 64 mod 64), b64char (n mod 64)} \<or> c \<in> set (b64encode rest)"
    unfolding enc by auto
  then show ?case
    using "1.IH" s by (auto simp: b64val_b64char)
next
  case (2 a b)
  define n where "n = unat a * 65536 + unat b * 256"
  note bts = bytes2 [OF unat_byte unat_byte, of a b, folded n_def]
  have enc: "b64encode [a, b] =
      [b64char (n div 262144), b64char (n div 4096 mod 64), b64char (n div 64 mod 64), CHR ''='']"
    by (simp add: Let_def n_def)
  have s: "n div 262144 < 64" "n div 4096 mod 64 < 64" "n div 64 mod 64 < 64"
    using bts(1) by simp_all
  from "2.prems" show ?case
    unfolding enc using s by (auto simp: b64val_b64char)
next
  case (3 a)
  define n where "n = unat a * 65536"
  note bts = bytes1 [OF unat_byte, of a, folded n_def]
  have enc: "b64encode [a] =
      [b64char (n div 262144), b64char (n div 4096 mod 64), CHR ''='', CHR ''='']"
    by (simp add: Let_def n_def)
  have s: "n div 262144 < 64" "n div 4096 mod 64 < 64"
    using bts(1) by simp_all
  from "3.prems" show ?case
    unfolding enc using s by (auto simp: b64val_b64char)
next
  case 4
  then show ?case by simp
qed

lemma b64encode_length: "length (b64encode bs) = 4 * ((length bs + 2) div 3)"
proof (induction bs rule: b64encode.induct)
  case (1 a b c rest)
  have "(length (a # b # c # rest) + 2) div 3 = Suc ((length rest + 2) div 3)"
    by simp
  with 1 show ?case by (simp add: Let_def)
qed (simp_all add: Let_def)

lemma mode_convert: "convert lib im m = Inr rgb \<Longrightarrow> mode rgb = m"
  by (auto simp: convert_def split: if_splits sum.splits)

lemma encode_image_Inr:
  assumes "mode im = ''RGB'' \<and> rgb = im \<or> mode im \<noteq> ''RGB'' \<and> convert lib im ''RGB'' = Inr rgb"
    and "save_jpeg lib rgb quality = Inr jpeg"
  shows "encode_image lib im quality = Inr (ustr (b64encode jpeg))"
  using assms by (auto simp: encode_image_def)

lemma encode_image_Inl_convert:
  "mode im \<noteq> ''RGB'' \<Longrightarrow> convert lib im ''RGB'' = Inl e \<Longrightarrow> encode_image lib im quality = Inl e"
  by (simp add: encode_image_def)

lemma encode_image_Inl_save:
  assumes "mode im = ''RGB'' \<and> rgb = im \<or> mode im \<noteq> ''RGB'' \<and> convert lib im ''RGB'' = Inr rgb"
    and "save_jpeg lib rgb quality = Inl e"
  shows "encode_image lib im quality = Inl e"
  using assms by (auto simp: encode_image_def)

lemma encode_image_La:
  "mode im = ''La'' \<Longrightarrow> encode_image lib im quality = Inl (ValueError ''conversion not supported'')"
  by (simp add: encode_image_def convert_def)

text \<open>
  C9. \<open>encode_image\<close> is not total over the colour modes: it returns exactly when
  Pillow converts the image (when its mode is not \<open>RGB\<close>) and encodes it without
  raising, and it raises Pillow's exception otherwise, always so for an image of mode
  \<open>La\<close>. When it returns, the JPEG writer received an image of mode \<open>RGB\<close> (the
  input itself when its mode is \<open>RGB\<close>, its conversion otherwise) and the result is a
  text over the base64 alphabet (with \<open>=\<close> padding), four characters per three bytes,
  whose base64 decoding succeeds and yields the JPEG bytes.
\<close>

theorem encode_image_returns_unless_pillow_raises:
  "(\<forall>rgb jpeg.
      (mode im = ''RGB'' \<and> rgb = im \<or> mode im \<noteq> ''RGB'' \<and> convert lib im ''RGB'' = Inr rgb) \<and>
      save_jpeg lib rgb quality = Inr jpeg \<longrightarrow>
      mode rgb = ''RGB'' \<and>
      (\<exists>t. encode_image lib im quality = Inr (ustr t) \<and>
           b64decode t = Some jpeg \<and>
           (\<forall>c \<in> set t. b64val c \<noteq> None \<or> c = CHR ''='') \<and>
           length t = 4 * ((length jpeg + 2) div 3))) \<and>
   (\<forall>e. mode im \<noteq> ''RGB'' \<and> convert lib im ''RGB'' = Inl e \<longrightarrow>
      encode_image lib im quality = Inl e) \<and>
   (\<forall>rgb e.
      (mode im = ''RGB'' \<and> rgb = im \<or> mode im \<noteq> ''RGB'' \<and> convert lib im ''RGB'' = Inr rgb) \<and>
      save_jpeg lib rgb quality = Inl e \<longrightarrow>
      encode_image lib im quality = Inl e) \<and>
   (mode im = ''La'' \<longrightarrow>
      encode_image lib im quality = Inl (ValueError ''conversion not supported''))"
proof (intro conjI allI impI)
  fix rgb jpeg
  assume a: "(mode im = ''RGB'' \<and> rgb = im \<or>
              mode im \<noteq> ''RGB'' \<and> convert lib im ''RGB'' = Inr rgb) \<and>
             save_jpeg lib rgb quality = Inr jpeg"
  then show "mode rgb = ''RGB''" by (auto dest: mode_convert)
  from a have "encode_image lib im quality = Inr (ustr (b64encode jpeg))"
    using encode_image_Inr [of im rgb lib quality jpeg] by blast
  moreover have "b64decode (b64encode jpeg) = Some jpeg"
    by (rule b64decode_b64encode)
  moreover have "\<forall>c \<in> set (b64encode jpeg). b64val c \<noteq> None \<or> c = CHR ''=''"
    using b64encode_chars by blast
  moreover have "length (b64encode jpeg) = 4 * ((length jpeg + 2) div 3)"
    by (rule b64encode_length)
  ultimately show "\<exists>t. encode_image lib im quality = Inr (ustr t) \<and>
              b64decode t = Some jpeg \<and>
              (\<forall>c \<in> set t. b64val c \<noteq> None \<or> c = CHR ''='') \<and>
              length t = 4 * ((length jpeg + 2) div 3)"
    by blast
next
  fix e
  assume "mode im \<noteq> ''RGB'' \<and> convert lib im ''RGB'' = Inl e"
  then show "encode_image lib im quality = Inl e"
    by (simp add: encode_image_Inl_convert)
next
  fix rgb e
  assume "(mode im = ''RGB'' \<and> rgb = im \<or>
           mode im \<noteq> ''RGB'' \<and> convert lib im ''RGB'' = Inr rgb) \<and>
          save_jpeg lib rgb quality = Inl e"
  then show "encode_image lib im quality = Inl e"
    using encode_image_Inl_save [of im rgb lib quality e] by blast
next
  assume "mode im = ''La''"
  then show "encode_image lib im quality = Inl (ValueError ''conversion not supported'')"
    by (rule encode_image_La)
qed

theorem encode_image_returns_unless_pillow_raises_witness:
  "mode (test_image\<lparr>mode := ''RGB'', pixels := [1, 2, 3]\<rparr>) = ''RGB'' \<and>
   (\<exists>t. encode_image test_pillow test_image 80 = Inr (ustr t) \<and>
        b64decode t = Some [1, 2, 3] \<and>
        (\<forall>c \<in> set t. b64val c \<noteq> None \<or> c = CHR ''='') \<and>
        length t = 4 * ((length [1 :: 8 word, 2, 3] + 2) div 3))"
proof -
  let ?rgb = "test_image\<lparr>mode := ''RGB'', pixels := [1, 2, 3]\<rparr>"
  have h: "(mode test_image = ''RGB'' \<and> ?rgb = test_image \<or>
            mode test_image \<noteq> ''RGB'' \<and> convert test_pillow test_image ''RGB'' = Inr ?rgb) \<and>
           save_jpeg test_pillow ?rgb 80 = Inr [1, 2, 3]"
    by (simp add: convert_def test_pillow_def test_image_def)
  from encode_image_returns_unless_pillow_raises [of test_image test_pillow 80]
  have "\<forall>rgb jpeg.
      (mode test_image = ''RGB'' \<and> rgb = test_image \<or>
       mode test_image \<noteq> ''RGB'' \<and> convert test_pillow test_image ''RGB'' = Inr rgb) \<and>
      save_jpeg test_pillow rgb 80 = Inr jpeg \<longrightarrow>
      mode rgb = ''RGB'' \<and>
      (\<exists>t. encode_image test_pillow test_image 80 = Inr (ustr t) \<and>
           b64decode t = Some jpeg \<and>
           (\<forall>c \<in> set t. b64val c \<noteq> None \<or> c = CHR ''='') \<and>
           length t = 4 * ((length jpeg + 2) div 3))"
    by (rule conjunct1)
  then show ?thesis using h by blast
qed

theorem la_mode_counterexample:
  "mode la_image \<noteq> ''RGB'' \<and>
   encode_image test_pillow la_image 80 = Inl (ValueError ''conversion not supported'')"
  by (simp add: la_image_def encode_image_def convert_def)

section \<open>Properties of \<open>json.dump\<close> and of the reference reader\<close>

lemma hexval_hex_digit: "d < 16 \<Longrightarrow> hexval (hex_digit d) = Some d"
  unfolding hexval_def hex_digit_def Let_def
  by (cases "d < 10") (simp_all add: of_char_char_of)

lemma hex_recombine:
  fixes n :: nat
  assumes "n < 65536"
  shows "(n div 4096 mod 16) * 4096 + (n div 256 mod 16) * 256 + (n div 16 mod 16) * 16 + n mod 16 = n"
proof -
  define q1 where "q1 = n div 16"
  define q2 where "q2 = q1 div 16"
  define q3 where "q3 = q2 div 16"
  have e2: "n div 256 = q2" unfolding q2_def q1_def by (simp add: div_mult2_eq)
  have e3: "n div 4096 = q3" unfolding q3_def q2_def q1_def by (simp add: div_mult2_eq)
  have "q3 < 16" unfolding e3 [symmetric] using assms by (simp add: less_mult_imp_div_less)
  then have m3: "q3 mod 16 = q3" by simp
  have n: "n = 16 * q1 + n mod 16" unfolding q1_def by simp
  have q1: "q1 = 16 * q2 + q1 mod 16" unfolding q2_def by simp
  have q2: "q2 = 16 * q3 + q2 mod 16" unfolding q3_def by simp
  have "q3 * 4096 + (q2 mod 16) * 256 + (q1 mod 16) * 16 + n mod 16
      = 16 * (16 * (16 * q3 + q2 mod 16) + q1 mod 16) + n mod 16"
    by simp
  also have "\<dots> = 16 * (16 * q2 + q1 mod 16) + n mod 16" using q2 by simp
  also have "\<dots> = 16 * q1 + n mod 16" using q1 by simp
  also have "\<dots> = n" using n by simp
  finally show ?thesis unfolding e2 e3 m3 q1_def [symmetric] .
qed

lemma hex_recombine_top:
  fixes n :: nat
  assumes "n < 65536"
  shows "n div 4096 * 4096 + (n div 256 mod 16) * 256 + (n div 16 mod 16) * 16 + n mod 16 = n"
proof -
  have "n div 4096 < 16" using assms by (simp add: less_mult_imp_div_less)
  then have "n div 4096 mod 16 = n div 4096" by simp
  with hex_recombine [OF assms] show ?thesis by simp
qed

lemma unhex4_hex4: "n < 65536 \<Longrightarrow> unhex4 (hex4 n @ tail) = Some (n, tail)"
  unfolding unhex4_def hex4_def
  by (simp add: hexval_hex_digit hex_recombine_top)

lemma parse_units_u:
  "n < 65536 \<Longrightarrow>
   parse_units (u_escape n @ tail) =
     (case parse_units tail of None \<Rightarrow> None | Some (us, r) \<Rightarrow> Some (n # us, r))"
  by (simp add: u_escape_def unhex4_hex4)

lemma char_of_neq:
  fixes c :: nat
  assumes "c < 256" and "c \<noteq> of_char d"
  shows "char_of c \<noteq> d"
proof
  assume "char_of c = d"
  then have "(of_char (char_of c) :: nat) = of_char d" by simp
  with assms show False by (simp add: of_char_char_of)
qed

lemma parse_units_raw:
  assumes "0x20 \<le> c" "c \<le> 0x7E" "c \<noteq> 0x22" "c \<noteq> 0x5C"
  shows "parse_units (char_of c # tail) =
     (case parse_units tail of None \<Rightarrow> None | Some (us, r) \<Rightarrow> Some (c # us, r))"
proof -
  have lt: "c < 256" using assms by simp
  have q: "char_of c \<noteq> CHR 0x22"
    by (rule char_of_neq [OF lt]) (use assms in simp)
  have b: "char_of c \<noteq> CHR 0x5C"
    by (rule char_of_neq [OF lt]) (use assms in simp)
  show ?thesis
    using assms q b by (simp add: of_char_char_of [OF lt] split: option.splits)
qed

lemma parse_units_esc_char:
  assumes "c < 0x110000"
  shows "parse_units (esc_char c @ tail) =
     (case parse_units tail of None \<Rightarrow> None | Some (us, r) \<Rightarrow> Some (utf16 c @ us, r))"
proof -
  consider (quote) "c = 0x22" | (bs) "c = 0x5C" | (nl) "c = 0x0A" | (cr) "c = 0x0D"
    | (tab) "c = 0x09" | (ff) "c = 0x0C" | (bsp) "c = 0x08"
    | (raw) "c \<noteq> 0x22" "c \<noteq> 0x5C" "0x20 \<le> c" "c \<le> 0x7E"
    | (bmp) "c \<noteq> 0x0A" "c \<noteq> 0x0D" "c \<noteq> 0x09" "c \<noteq> 0x0C" "c \<noteq> 0x08"
        "\<not> (0x20 \<le> c \<and> c \<le> 0x7E)" "c < 0x10000"
    | (astral) "0x10000 \<le> c"
    by linarith
  then show ?thesis
  proof cases
    case quote
    then show ?thesis by (simp add: esc_char_def utf16_def simple_escape_def split: option.splits)
  next
    case bs
    then show ?thesis by (simp add: esc_char_def utf16_def simple_escape_def split: option.splits)
  next
    case nl
    then show ?thesis by (simp add: esc_char_def utf16_def simple_escape_def split: option.splits)
  next
    case cr
    then show ?thesis by (simp add: esc_char_def utf16_def simple_escape_def split: option.splits)
  next
    case tab
    then show ?thesis by (simp add: esc_char_def utf16_def simple_escape_def split: option.splits)
  next
    case ff
    then show ?thesis by (simp add: esc_char_def utf16_def simple_escape_def split: option.splits)
  next
    case bsp
    then show ?thesis by (simp add: esc_char_def utf16_def simple_escape_def split: option.splits)
  next
    case raw
    then have e: "esc_char c = [char_of c]" by (simp add: esc_char_def)
    have u: "utf16 c = [c]" using raw by (simp add: utf16_def)
    show ?thesis unfolding e u using parse_units_raw [OF raw(3,4,1,2)]
      by (simp split: option.splits)
  next
    case bmp
    then have e: "esc_char c = u_escape c" by (auto simp: esc_char_def)
    have u: "utf16 c = [c]" using bmp by (simp add: utf16_def)
    show ?thesis unfolding e u using parse_units_u [OF bmp(7)]
      by (simp split: option.splits)
  next
    case astral
    define v where "v = c - 0x10000"
    have v: "v < 1048576" using assms astral by (simp add: v_def)
    have e: "esc_char c = u_escape (0xD800 + v div 1024 mod 1024) @ u_escape (0xDC00 + v mod 1024)"
      using astral by (simp add: esc_char_def v_def Let_def)
    have u: "utf16 c = [0xD800 + v div 1024 mod 1024, 0xDC00 + v mod 1024]"
      using astral by (simp add: utf16_def v_def)
    have h: "0xD800 + v div 1024 mod 1024 < (65536 :: nat)"
    proof -
      have "v div 1024 mod 1024 < 1024" by simp
      then show ?thesis by linarith
    qed
    have l: "0xDC00 + v mod 1024 < (65536 :: nat)"
    proof -
      have "v mod 1024 < 1024" by simp
      then show ?thesis by linarith
    qed
    show ?thesis
      unfolding e u append_assoc parse_units_u [OF h] parse_units_u [OF l]
      by (simp split: option.splits)
  qed
qed

lemma parse_units_concat:
  assumes "list_all (\<lambda>c. c < 0x110000) s"
  shows "parse_units (concat (map esc_char s) @ CHR 0x22 # rest) = Some (concat (map utf16 s), rest)"
  using assms
proof (induction s)
  case Nil
  then show ?case by simp
next
  case (Cons c s)
  then have c: "c < 0x110000" and s: "list_all (\<lambda>c. c < 0x110000) s" by simp_all
  show ?case
    using parse_units_esc_char [OF c, of "concat (map esc_char s) @ CHR 0x22 # rest"]
      Cons.IH [OF s]
    by simp
qed

lemma join_surrogates_cons:
  "\<not> (0xD800 \<le> c \<and> c \<le> 0xDBFF) \<Longrightarrow> join_surrogates (c # us) = c # join_surrogates us"
  by (cases us) auto

lemma join_surrogates_utf16:
  assumes "valid_ustr s"
  shows "join_surrogates (concat (map utf16 s)) = s"
  using assms
proof (induction s)
  case Nil
  then show ?case by simp
next
  case (Cons c s)
  then have sc: "is_scalar c" and s: "valid_ustr s" by (simp_all add: valid_ustr_def)
  show ?case
  proof (cases "c < 0x10000")
    case True
    then have u: "utf16 c = [c]" by (simp add: utf16_def)
    have "\<not> (0xD800 \<le> c \<and> c \<le> 0xDBFF)" using sc by (auto simp: is_scalar_def)
    then show ?thesis using Cons.IH [OF s] by (simp add: u join_surrogates_cons)
  next
    case False
    define v where "v = c - 0x10000"
    have v: "v < 1048576" using sc False by (simp add: v_def is_scalar_def)
    have c: "c = 0x10000 + v" using False by (simp add: v_def)
    have u: "utf16 c = [0xD800 + v div 1024 mod 1024, 0xDC00 + v mod 1024]"
      using False by (simp add: utf16_def v_def)
    have d: "v div 1024 mod 1024 = v div 1024"
      using v by (simp add: less_mult_imp_div_less)
    have m: "v mod 1024 < 1024" and dd: "v div 1024 < 1024"
      using v by (simp_all add: less_mult_imp_div_less)
    have r: "0x10000 + v div 1024 * 1024 + v mod 1024 = c"
      unfolding c by simp
    have "join_surrogates ((0xD800 + v div 1024) # (0xDC00 + v mod 1024) # concat (map utf16 s))
        = (0x10000 + v div 1024 * 1024 + v mod 1024) # join_surrogates (concat (map utf16 s))"
      using m dd by simp
    then show ?thesis using Cons.IH [OF s] by (simp add: u d r)
  qed
qed

lemma valid_ustr_bound: "valid_ustr s \<Longrightarrow> list_all (\<lambda>c. c < 0x110000) s"
  by (induction s) (simp_all add: valid_ustr_def is_scalar_def)

lemma parse_string_dumps_str:
  assumes "valid_ustr s"
  shows "dumps_str s @ rest = CHR 0x22 # concat (map esc_char s) @ CHR 0x22 # rest"
    and "parse_string (concat (map esc_char s) @ CHR 0x22 # rest) = Some (s, rest)"
  using parse_units_concat [OF valid_ustr_bound [OF assms], of rest]
    join_surrogates_utf16 [OF assms]
  by (simp_all add: dumps_str_def parse_string_def)

lemma dumps_str_Cons: "dumps_str s = CHR 0x22 # concat (map esc_char s) @ [CHR 0x22]"
  by (simp add: dumps_str_def)

lemma dumps_first:
  "string_tree v \<Longrightarrow>
   \<exists>c t. dumps v = c # t \<and> (c = CHR 0x22 \<or> c = CHR ''['' \<or> c = CHR ''{'')"
  by (cases v) (simp_all add: dumps_str_Cons)

lemma skip_ws_space: "skip_ws (CHR '' '' # cs) = skip_ws cs"
  by (simp add: is_ws_def)

lemma parse_value_space: "parse_value k (CHR '' '' # cs) = parse_value k cs"
  by (cases k) (simp_all add: is_ws_def)

lemma parse_elems_space: "parse_elems k (CHR '' '' # cs) = parse_elems k cs"
  by (cases k) (simp_all add: parse_value_space)

lemma parse_members_space: "parse_members k (CHR '' '' # cs) = parse_members k cs"
  by (cases k) (simp_all add: is_ws_def)

lemma parse_value_string:
  assumes "valid_ustr s"
  shows "parse_value (Suc k) (dumps_str s @ rest) = Some (JStr s, rest)"
  using parse_string_dumps_str(2) [OF assms, of rest]
  by (simp add: dumps_str_Cons is_ws_def)

lemma parse_elems_join:
  assumes "vs \<noteq> []"
    and "\<And>v k rest. v \<in> set vs \<Longrightarrow> cost v \<le> k \<Longrightarrow>
           parse_value k (dumps v @ rest) = Some (v, rest)"
    and "sum_list (map (\<lambda>v. Suc (cost v)) vs) \<le> k"
  shows "parse_elems k (join '', '' (map dumps vs) @ CHR '']'' # rest) = Some (vs, rest)"
  using assms
proof (induction vs arbitrary: k)
  case Nil
  then show ?case by simp
next
  case (Cons v vs)
  from Cons.prems(3) obtain k' where k: "k = Suc k'" and cv: "cost v \<le> k'"
    and rest_cost: "sum_list (map (\<lambda>v. Suc (cost v)) vs) \<le> k'"
    by (cases k) auto
  have pv: "\<And>r. parse_value k' (dumps v @ r) = Some (v, r)"
    using Cons.prems(2) [of v k'] cv by simp
  show ?case
  proof (cases vs)
    case Nil
    then show ?thesis
      using pv [of "CHR '']'' # rest"] by (simp add: k is_ws_def)
  next
    case (Cons w ws)
    have ne: "vs \<noteq> []" using Cons by simp
    have ih: "parse_elems k' (join '', '' (map dumps vs) @ CHR '']'' # rest) = Some (vs, rest)"
      using Cons.IH [OF ne _ rest_cost] Cons.prems(2) by simp
    have j: "join '', '' (map dumps (v # vs)) @ CHR '']'' # rest
           = dumps v @ (CHR '','' # CHR '' '' # join '', '' (map dumps vs) @ CHR '']'' # rest)"
      using Cons by simp
    show ?thesis
      unfolding j k
      using pv [of "CHR '','' # CHR '' '' # join '', '' (map dumps vs) @ CHR '']'' # rest"] ih
      by (simp add: is_ws_def parse_elems_space)
  qed
qed

lemma parse_members_join:
  assumes "kvs \<noteq> []"
    and "\<And>kv k rest. kv \<in> set kvs \<Longrightarrow> cost (snd kv) \<le> k \<Longrightarrow>
           parse_value k (dumps (snd kv) @ rest) = Some (snd kv, rest)"
    and "list_all (\<lambda>kv. valid_ustr (fst kv)) kvs"
    and "sum_list (map (\<lambda>kv. Suc (cost (snd kv))) kvs) \<le> k"
  shows "parse_members k
           (join '', '' (map (\<lambda>kv. dumps_str (fst kv) @ '': '' @ dumps (snd kv)) kvs)
              @ CHR ''}'' # rest) = Some (kvs, rest)"
  using assms
proof (induction kvs arbitrary: k)
  case Nil
  then show ?case by simp
next
  case (Cons kv kvs)
  obtain key v where kv: "kv = (key, v)" by (cases kv)
  from Cons.prems(4) obtain k' where k: "k = Suc k'" and cv: "cost v \<le> k'"
    and rest_cost: "sum_list (map (\<lambda>kv. Suc (cost (snd kv))) kvs) \<le> k'"
    by (cases k) (auto simp: kv)
  have vk: "valid_ustr key" and vks: "list_all (\<lambda>kv. valid_ustr (fst kv)) kvs"
    using Cons.prems(3) by (simp_all add: kv)
  have pv: "\<And>r. parse_value k' (dumps v @ r) = Some (v, r)"
    using Cons.prems(2) [of kv k'] cv by (simp add: kv)
  have ps: "\<And>r. parse_string (concat (map esc_char key) @ CHR 0x22 # r) = Some (key, r)"
    by (rule parse_string_dumps_str(2) [OF vk])
  show ?case
  proof (cases kvs)
    case Nil
    have j: "join '', '' (map (\<lambda>kv. dumps_str (fst kv) @ '': '' @ dumps (snd kv)) (kv # kvs))
               @ CHR ''}'' # rest
           = CHR 0x22 # concat (map esc_char key) @ CHR 0x22 # (CHR '':'' # CHR '' '' # dumps v @ CHR ''}'' # rest)"
      using Nil by (simp add: kv dumps_str_Cons)
    show ?thesis
      unfolding j k
      using ps [of "CHR '':'' # CHR '' '' # dumps v @ CHR ''}'' # rest"] pv [of "CHR ''}'' # rest"]
      by (simp add: is_ws_def parse_value_space Nil kv)
  next
    case (Cons w ws)
    have ne: "kvs \<noteq> []" using Cons by simp
    let ?tail = "join '', '' (map (\<lambda>kv. dumps_str (fst kv) @ '': '' @ dumps (snd kv)) kvs)
                   @ CHR ''}'' # rest"
    have ih: "parse_members k' ?tail = Some (kvs, rest)"
      using Cons.IH [OF ne _ vks rest_cost] Cons.prems(2) by simp
    have j: "join '', '' (map (\<lambda>kv. dumps_str (fst kv) @ '': '' @ dumps (snd kv)) (kv # kvs))
               @ CHR ''}'' # rest
           = CHR 0x22 # concat (map esc_char key) @ CHR 0x22 #
               (CHR '':'' # CHR '' '' # dumps v @ (CHR '','' # CHR '' '' # ?tail))"
      using Cons by (simp add: kv dumps_str_Cons)
    show ?thesis
      unfolding j k
      using ps [of "CHR '':'' # CHR '' '' # dumps v @ (CHR '','' # CHR '' '' # ?tail)"]
        pv [of "CHR '','' # CHR '' '' # ?tail"] ih
      by (simp add: is_ws_def parse_value_space parse_members_space kv)
  qed
qed

lemma parse_value_dumps:
  "string_tree v \<Longrightarrow> cost v \<le> k \<Longrightarrow> parse_value k (dumps v @ rest) = Some (v, rest)"
proof (induction v arbitrary: k rest)
  case (JStr s)
  then obtain k' where "k = Suc k'" by (cases k) auto
  with JStr show ?case
    using parse_value_string [of s k' rest] by (simp del: parse_value.simps)
next
  case (JArr vs)
  from JArr.prems(2) obtain k' where k: "k = Suc k'"
    and c: "sum_list (map (\<lambda>v. Suc (cost v)) vs) \<le> k'"
    by (cases k) auto
  show ?case
  proof (cases "vs = []")
    case True
    then show ?thesis by (simp add: k is_ws_def)
  next
    case False
    have step: "\<And>v k rest. v \<in> set vs \<Longrightarrow> cost v \<le> k \<Longrightarrow>
        parse_value k (dumps v @ rest) = Some (v, rest)"
      using JArr.IH JArr.prems(1) by (simp add: list_all_iff)
    have pe: "parse_elems k' (join '', '' (map dumps vs) @ CHR '']'' # rest) = Some (vs, rest)"
      by (rule parse_elems_join [OF False step c])
    from False obtain v ws where vs: "vs = v # ws" by (cases vs) auto
    have sv: "string_tree v" using JArr.prems(1) by (simp add: vs)
    from dumps_first [OF sv] obtain c t where d: "dumps v = c # t"
      and cc: "c = CHR 0x22 \<or> c = CHR ''['' \<or> c = CHR ''{''" by blast
    have "\<exists>t'. join '', '' (map dumps vs) @ CHR '']'' # rest = c # t'"
      unfolding vs by (cases ws) (simp_all add: d)
    then obtain t' where j: "join '', '' (map dumps vs) @ CHR '']'' # rest = c # t'" ..
    have nws: "\<not> is_ws c" and nb: "c \<noteq> CHR '']''"
      using cc by (auto simp: is_ws_def)
    have d: "dumps (JArr vs) @ rest = CHR ''['' # c # t'"
      using j by simp
    have pv: "parse_value (Suc k') (CHR ''['' # c # t') = Some (JArr vs, rest)"
      using pe [unfolded j] nws nb by (simp add: is_ws_def)
    show ?thesis unfolding k d by (rule pv)
  qed
next
  case (JObj kvs)
  from JObj.prems(2) obtain k' where k: "k = Suc k'"
    and c: "sum_list (map (\<lambda>kv. Suc (cost (snd kv))) kvs) \<le> k'"
    by (cases k) auto
  show ?case
  proof (cases "kvs = []")
    case True
    then show ?thesis by (simp add: k is_ws_def)
  next
    case False
    have step: "\<And>kv k rest. kv \<in> set kvs \<Longrightarrow> cost (snd kv) \<le> k \<Longrightarrow>
        parse_value k (dumps (snd kv) @ rest) = Some (snd kv, rest)"
    proof -
      fix kv k rest
      assume m: "kv \<in> set kvs" and ck: "cost (snd kv) \<le> k"
      obtain key v where kv: "kv = (key, v)" by (cases kv)
      have "v \<in> Basic_BNFs.snds kv" by (simp add: kv)
      moreover have "string_tree v"
        using JObj.prems(1) m by (auto simp: list_all_iff kv)
      ultimately show "parse_value k (dumps (snd kv) @ rest) = Some (snd kv, rest)"
        using JObj.IH [OF m, of v k rest] ck by (simp add: kv)
    qed
    have keys: "list_all (\<lambda>kv. valid_ustr (fst kv)) kvs"
      using JObj.prems(1) by (simp add: list_all_iff)
    let ?body = "join '', '' (map (\<lambda>kv. dumps_str (fst kv) @ '': '' @ dumps (snd kv)) kvs)"
    have pm: "parse_members k' (?body @ CHR ''}'' # rest) = Some (kvs, rest)"
      by (rule parse_members_join [OF False step keys c])
    from False obtain kv ws where kvs: "kvs = kv # ws" by (cases kvs) auto
    have "\<exists>t'. ?body @ CHR ''}'' # rest = CHR 0x22 # t'"
      unfolding kvs by (cases ws) (simp_all add: dumps_str_Cons)
    then obtain t' where j: "?body @ CHR ''}'' # rest = CHR 0x22 # t'" ..
    have d: "dumps (JObj kvs) @ rest = CHR ''{'' # CHR 0x22 # t'"
      using j by simp
    have pv: "parse_value (Suc k') (CHR ''{'' # CHR 0x22 # t') = Some (JObj kvs, rest)"
      using pm [unfolded j] by (simp add: is_ws_def)
    show ?thesis unfolding k d by (rule pv)
  qed
qed simp_all

lemma length_join: "sum_list (map length xs) \<le> length (join sep xs)"
  by (induction sep xs rule: join.induct) simp_all

lemma cost_le_length: "string_tree v \<Longrightarrow> Suc (cost v) \<le> length (dumps v)"
proof (induction v)
  case (JStr s)
  then show ?case by (simp add: dumps_str_Cons)
next
  case (JArr vs)
  have "sum_list (map (\<lambda>v. Suc (cost v)) vs) \<le> sum_list (map length (map dumps vs))"
    unfolding map_map comp_def
  proof (rule sum_list_mono)
    fix v assume m: "v \<in> set vs"
    then have "string_tree v" using JArr.prems by (simp add: list_all_iff)
    from JArr.IH [OF m this] show "Suc (cost v) \<le> length (dumps v)" .
  qed
  also have "\<dots> \<le> length (join '', '' (map dumps vs))" by (rule length_join)
  finally show ?case by simp
next
  case (JObj kvs)
  let ?f = "\<lambda>kv. dumps_str (fst kv) @ '': '' @ dumps (snd kv)"
  have "sum_list (map (\<lambda>kv. Suc (cost (snd kv))) kvs) \<le> sum_list (map length (map ?f kvs))"
    unfolding map_map comp_def
  proof (rule sum_list_mono)
    fix kv assume m: "kv \<in> set kvs"
    obtain key v where kv: "kv = (key, v)" by (cases kv)
    have "v \<in> Basic_BNFs.snds kv" by (simp add: kv)
    moreover have "string_tree v" using JObj.prems m by (auto simp: list_all_iff kv)
    ultimately have "Suc (cost v) \<le> length (dumps v)" using JObj.IH [OF m] by simp
    then show "Suc (cost (snd kv)) \<le> length (?f kv)"
      by (simp add: kv)
  qed
  also have "\<dots> \<le> length (join '', '' (map ?f kvs))" by (rule length_join)
  finally show ?case by simp
qed simp_all

lemma loads_dumps: "string_tree v \<Longrightarrow> loads (dumps v) = Some v"
  using parse_value_dumps [of v "length (dumps v)" "[]"] cost_le_length [of v]
  by (simp add: loads_def)

lemma key_names_differ: "ustr ''role'' \<noteq> ustr ''content''" "ustr ''type'' \<noteq> ustr ''text''"
  "ustr ''type'' \<noteq> ustr ''image_url''"
  by (simp_all add: ustr_def)

lemma record_fields_chat_record:
  "record_fields (chat_record t u (JStr a)) = Some (t, u, a)"
  by (simp add: record_fields_def chat_record_def key_names_differ key_names_differ [symmetric])

lemma hex_digit_no_newline: "d < 16 \<Longrightarrow> hex_digit d \<noteq> CHR 0x0A"
  unfolding hex_digit_def
  by (cases "d < 10") (simp_all add: char_of_neq)

lemma u_escape_no_newline: "CHR 0x0A \<notin> set (u_escape n)"
  by (simp add: u_escape_def hex4_def hex_digit_no_newline [symmetric])

lemma esc_char_no_newline: "CHR 0x0A \<notin> set (esc_char c)"
proof -
  have raw: "char_of c \<noteq> CHR 0x0A" if "0x20 \<le> c" "c \<le> 0x7E"
    by (rule char_of_neq) (use that in simp_all)
  show ?thesis
    unfolding esc_char_def Let_def
    by (simp add: u_escape_no_newline raw raw [symmetric])
qed

lemma dumps_str_no_newline: "CHR 0x0A \<notin> set (dumps_str s)"
  by (induction s) (simp_all add: dumps_str_def esc_char_no_newline)

lemma set_join: "set (join sep xs) \<subseteq> set sep \<union> \<Union> (set ` set xs)"
  by (induction sep xs rule: join.induct) auto

lemma digit_char_no_newline: "d < 10 \<Longrightarrow> digit_char d \<noteq> CHR 0x0A"
  unfolding digit_char_def by (rule char_of_neq) simp_all

lemma str_nat_no_newline: "CHR 0x0A \<notin> set (str_nat n)"
proof (induction n rule: str_nat.induct)
  case (1 n)
  show ?case
  proof (cases "n < 10")
    case True
    then show ?thesis
      using digit_char_no_newline [of n] by (subst str_nat.simps) auto
  next
    case False
    have "n mod 10 < 10" by simp
    from digit_char_no_newline [OF this] "1.IH" [OF False] False show ?thesis
      by (subst str_nat.simps) auto
  qed
qed

lemma str_int_no_newline: "CHR 0x0A \<notin> set (str_int i)"
  by (simp add: str_int_def str_nat_no_newline)

lemma dumps_no_newline: "CHR 0x0A \<notin> set (dumps v)"
proof (induction v)
  case (JStr s)
  then show ?case by (simp add: dumps_str_no_newline)
next
  case (JArr vs)
  have "CHR 0x0A \<notin> set '', '' \<union> \<Union> (set ` set (map dumps vs))"
    using JArr.IH by auto
  with set_join [of "'', ''" "map dumps vs"]
  have "CHR 0x0A \<notin> set (join '', '' (map dumps vs))" by blast
  then show ?case by simp
next
  case (JObj kvs)
  let ?f = "\<lambda>kv. dumps_str (fst kv) @ '': '' @ dumps (snd kv)"
  have "CHR 0x0A \<notin> set (?f kv)" if "kv \<in> set kvs" for kv
  proof -
    obtain key v where kv: "kv = (key, v)" by (cases kv)
    have "v \<in> Basic_BNFs.snds kv" by (simp add: kv)
    from JObj.IH [OF that this] show ?thesis
      by (simp add: kv dumps_str_no_newline)
  qed
  then have "CHR 0x0A \<notin> set '', '' \<union> \<Union> (set ` set (map ?f kvs))"
    by auto
  with set_join [of "'', ''" "map ?f kvs"]
  have "CHR 0x0A \<notin> set (join '', '' (map ?f kvs))" by blast
  then show ?case by simp
qed (simp_all add: str_int_no_newline)

lemma split_lines_line:
  "CHR 0x0A \<notin> set x \<Longrightarrow>
   split_lines cur (x @ CHR 0x0A # rest) = (cur @ x) # split_lines [] rest"
  by (induction x arbitrary: cur) auto

lemma then_write_simps [simp]:
  "then_write (t, None) b = (t @ fst b, snd b)"
  "then_write (t, Some e) b = (t, Some e)"
  by (simp_all add: then_write_def)

lemma dump_join_join:
  "list_all (\<lambda>x. snd x = None) xs \<Longrightarrow> dump_join xs = (join '', '' (map fst xs), None)"
proof (induction xs rule: dump_join.induct)
  case (3 x y ys)
  then show ?case by (cases x) simp
qed (simp_all add: prod_eq_iff)

lemma dump_dumps: "string_tree v \<Longrightarrow> dump v = (dumps v, None)"
proof (induction v)
  case (JArr vs)
  have e: "map dump vs = map (\<lambda>v. (dumps v, None)) vs"
    using JArr by (simp add: list_all_iff)
  have "dump_join (map dump vs) = (join '', '' (map dumps vs), None)"
    unfolding e using dump_join_join [of "map (\<lambda>v. (dumps v, None)) vs"]
    by (simp add: list_all_iff comp_def)
  then show ?case by simp
next
  case (JObj kvs)
  let ?g = "\<lambda>kv. then_write (dumps_str (fst kv) @ '': '', None) (dump (snd kv))"
  let ?f = "\<lambda>kv. dumps_str (fst kv) @ '': '' @ dumps (snd kv)"
  have "?g kv = (?f kv, None)" if m: "kv \<in> set kvs" for kv
  proof -
    obtain key v where kv: "kv = (key, v)" by (cases kv)
    have "v \<in> Basic_BNFs.snds kv" by (simp add: kv)
    moreover have "string_tree v" using JObj.prems m by (auto simp: list_all_iff kv)
    ultimately have "dump v = (dumps v, None)" using JObj.IH [OF m] by simp
    then show ?thesis by (simp add: kv)
  qed
  then have e: "map ?g kvs = map (\<lambda>kv. (?f kv, None)) kvs"
    by simp
  have "dump_join (map ?g kvs) = (join '', '' (map ?f kvs), None)"
    unfolding e using dump_join_join [of "map (\<lambda>kv. (?f kv, None)) kvs"]
    by (simp add: list_all_iff comp_def)
  then show ?case by simp
qed simp_all

lemma write_jsonl_text:
  "list_all string_tree rs \<Longrightarrow>
   write_jsonl rs = (concat (map (\<lambda>r. dumps r @ [CHR 0x0A]) rs), None)"
  by (induction rs) (simp_all add: dump_dumps)

lemma lines_of_text:
  "lines_of (concat (map (\<lambda>r. dumps r @ [CHR 0x0A]) rs)) = map dumps rs"
proof (induction rs)
  case Nil
  then show ?case by (simp add: lines_of_def)
next
  case (Cons r rs)
  let ?rest = "concat (map (\<lambda>r. dumps r @ [CHR 0x0A]) rs)"
  have "split_lines [] (dumps r @ CHR 0x0A # ?rest) = dumps r # split_lines [] ?rest"
    using split_lines_line [OF dumps_no_newline, of "[]" r ?rest] by simp
  with Cons show ?case by (simp add: lines_of_def)
qed




lemma valid_ustr_ustr: "valid_ustr (ustr s)"
proof -
  have "is_scalar (of_char c)" for c :: char
  proof -
    have "(of_char c :: nat) < 256" by simp
    then show ?thesis unfolding is_scalar_def by linarith
  qed
  then show ?thesis by (simp add: valid_ustr_def ustr_def list_all_iff)
qed

lemma valid_ustr_append: "valid_ustr (a @ b) \<longleftrightarrow> valid_ustr a \<and> valid_ustr b"
  by (simp add: valid_ustr_def)

section \<open>Properties of the dataset conversion\<close>

lemma encode_image_ustr: "encode_image lib im quality = Inr e \<Longrightarrow> valid_ustr e"
  by (auto simp: encode_image_def valid_ustr_ustr split: sum.splits if_splits)

lemma build_record_char:
  "build_record lib idx ex =
     (case row_error lib ex of Some e \<Rightarrow> Inl e | None \<Rightarrow> Inr (record_of lib (idx, ex)))"
  by (simp add: build_record_def row_error_def record_of_def image_url_def chat_record_def
      question_text_def split: option.splits sum.splits)

lemma convert_rows_step_ok:
  "build_record lib idx ex = Inr r \<Longrightarrow>
   convert_rows lib idx (ex # rest) jd pr = convert_rows lib (Suc idx) rest (jd @ [r]) pr"
  by simp

lemma convert_rows_step_skip:
  "build_record lib idx ex = Inl e \<Longrightarrow> is_Exception e \<Longrightarrow>
   convert_rows lib idx (ex # rest) jd pr =
     convert_rows lib (Suc idx) rest jd (pr @ [printed_for (idx, e)])"
  by (cases e) simp_all

lemma convert_rows_char:
  assumes "\<forall>(i, e) \<in> set (skipped lib idx rows). is_Exception e"
  shows "convert_rows lib idx rows jd pr =
           Inr (jd @ map (record_of lib) (kept lib idx rows),
                pr @ map printed_for (skipped lib idx rows))"
  using assms
proof (induction rows arbitrary: idx jd pr)
  case Nil
  then show ?case by simp
next
  case (Cons ex rest)
  show ?case
  proof (cases "row_error lib ex")
    case None
    then have b: "build_record lib idx ex = Inr (record_of lib (idx, ex))"
      by (simp add: build_record_char)
    from Cons.prems None have "\<forall>(i, e) \<in> set (skipped lib (Suc idx) rest). is_Exception e"
      by simp
    from Cons.IH [OF this] None show ?thesis
      by (simp del: convert_rows.simps add: convert_rows_step_ok [OF b])
  next
    case (Some e)
    then have b: "build_record lib idx ex = Inl e"
      by (simp add: build_record_char)
    from Cons.prems Some have e: "is_Exception e"
      and rest: "\<forall>(i, e) \<in> set (skipped lib (Suc idx) rest). is_Exception e"
      by simp_all
    from Cons.IH [OF rest] Some show ?thesis
      by (simp del: convert_rows.simps add: convert_rows_step_skip [OF b e])
  qed
qed



lemma kept_no_error: "(i, ex) \<in> set (kept lib idx rows) \<Longrightarrow> row_error lib ex = None"
  by (induction rows arbitrary: idx) (auto split: option.splits)

lemma image_url_Some:
  "row_error lib ex = None \<Longrightarrow> \<exists>im enc. image_attr ex = Some im \<and>
     encode_image lib im 80 = Inr enc \<and> image_url lib ex = Some (base64_prefix @ enc)"
  by (auto simp: row_error_def image_url_def split: option.splits sum.splits)

lemma record_of_training:
  assumes "row_error lib ex = None" and "text_row ex"
  shows "\<exists>u a. image_url lib ex = Some u \<and> answer ex = PStr a \<and>
           valid_ustr (question_text i ex) \<and> valid_ustr u \<and> valid_ustr a \<and>
           record_of lib (i, ex) = training_record (question_text i ex) u a \<and>
           fields_of lib (i, ex) = Some (question_text i ex, u, a)"
proof -
  from image_url_Some [OF assms(1)] obtain im enc where im: "image_attr ex = Some im"
    and enc: "encode_image lib im 80 = Inr enc"
    and u: "image_url lib ex = Some (base64_prefix @ enc)" by blast
  from assms(2) obtain a where a: "answer ex = PStr a" and va: "valid_ustr a"
    and vq: "valid_ustr (py_str (question ex))"
    by (cases "answer ex") (simp_all add: text_row_def)
  have vt: "valid_ustr (question_text i ex)"
    using vq by (simp add: question_text_def valid_ustr_append valid_ustr_ustr)
  have vu: "valid_ustr (base64_prefix @ enc)"
    using encode_image_ustr [OF enc]
    by (simp add: valid_ustr_append valid_ustr_ustr base64_prefix_def)
  show ?thesis
    using u a va vt vu
    by (simp add: record_of_def training_record_def fields_of_def)
qed

lemma string_tree_training_record:
  "valid_ustr t \<Longrightarrow> valid_ustr u \<Longrightarrow> valid_ustr a \<Longrightarrow> string_tree (training_record t u a)"
proof -
  have "valid_ustr SYSTEM_PROMPT" unfolding SYSTEM_PROMPT_def by (rule valid_ustr_ustr)
  then show "valid_ustr t \<Longrightarrow> valid_ustr u \<Longrightarrow> valid_ustr a \<Longrightarrow>
      string_tree (training_record t u a)"
    by (simp add: training_record_def chat_record_def valid_ustr_ustr)
qed

lemma record_fields_training_record: "record_fields (training_record t u a) = Some (t, u, a)"
  unfolding training_record_def by (rule record_fields_chat_record)

lemma parse_line_training_record:
  assumes "valid_ustr t" "valid_ustr u" "valid_ustr a"
  shows "loads (dumps (training_record t u a)) = Some (training_record t u a)"
    and "parse_line (dumps (training_record t u a)) = Some (t, u, a)"
  using loads_dumps [OF string_tree_training_record [OF assms]]
  by (simp_all add: parse_line_def record_fields_training_record)

lemma kept_rows_read_back:
  assumes "\<forall>(i, ex) \<in> set rows. row_error lib ex = None \<and> text_row ex"
  shows "list_all string_tree (map (record_of lib) rows)"
    and "map parse_line (map dumps (map (record_of lib) rows)) = map (fields_of lib) rows"
proof -
  have r: "string_tree (record_of lib row) \<and>
           parse_line (dumps (record_of lib row)) = fields_of lib row"
    if m: "row \<in> set rows" for row
  proof -
    obtain i ex where row: "row = (i, ex)" by (cases row)
    from assms m row have e: "row_error lib ex = None" and t: "text_row ex" by auto
    from record_of_training [OF e t, of i] obtain u a where
      v: "valid_ustr (question_text i ex)" "valid_ustr u" "valid_ustr a"
      and rec: "record_of lib (i, ex) = training_record (question_text i ex) u a"
      and f: "fields_of lib (i, ex) = Some (question_text i ex, u, a)" by blast
    show ?thesis
      unfolding row rec f
      using string_tree_training_record [OF v] parse_line_training_record(2) [OF v] by simp
  qed
  from r show "list_all string_tree (map (record_of lib) rows)"
    by (simp add: list_all_iff)
  from r show "map parse_line (map dumps (map (record_of lib) rows)) = map (fields_of lib) rows"
    by simp
qed

lemma generate_split_char:
  assumes "\<forall>(i, e) \<in> set (skipped lib 0 ds). is_Exception e"
    and "\<forall>(i, ex) \<in> set (kept lib 0 ds). text_row ex"
  shows "generate_split lib ds =
           Inr ((concat (map (\<lambda>r. dumps r @ [CHR 0x0A]) (map (record_of lib) (kept lib 0 ds))),
                 None),
                map printed_for (skipped lib 0 ds))"
    and "lines_of (concat (map (\<lambda>r. dumps r @ [CHR 0x0A]) (map (record_of lib) (kept lib 0 ds))))
           = map dumps (map (record_of lib) (kept lib 0 ds))"
    and "map parse_line (map dumps (map (record_of lib) (kept lib 0 ds)))
           = map (fields_of lib) (kept lib 0 ds)"
proof -
  have k: "\<forall>(i, ex) \<in> set (kept lib 0 ds). row_error lib ex = None \<and> text_row ex"
    using assms(2) kept_no_error by fastforce
  note rb = kept_rows_read_back [OF k]
  show "generate_split lib ds =
           Inr ((concat (map (\<lambda>r. dumps r @ [CHR 0x0A]) (map (record_of lib) (kept lib 0 ds))),
                 None),
                map printed_for (skipped lib 0 ds))"
    using convert_rows_char [OF assms(1), of "[]" "[]"] write_jsonl_text [OF rb(1)]
    by (simp add: generate_split_def)
  show "lines_of (concat (map (\<lambda>r. dumps r @ [CHR 0x0A]) (map (record_of lib) (kept lib 0 ds))))
           = map dumps (map (record_of lib) (kept lib 0 ds))"
    by (rule lines_of_text)
  show "map parse_line (map dumps (map (record_of lib) (kept lib 0 ds)))
           = map (fields_of lib) (kept lib 0 ds)"
    by (rule rb(2))
qed

lemma encode_test_image: "encode_image test_pillow test_image q = Inr (ustr (b64encode [1, 2, 3]))"
  by (simp add: encode_image_def convert_def test_pillow_def test_image_def del: b64encode.simps)

lemma row_error_test_image:
  "image_attr ex = Some test_image \<Longrightarrow> row_error test_pillow ex = None"
  "image_attr ex = Some test_image \<Longrightarrow>
     image_url test_pillow ex = Some (base64_prefix @ ustr (b64encode [1, 2, 3]))"
  by (simp_all add: row_error_def image_url_def encode_test_image)

lemma kept_nth:
  assumes "list_all (\<lambda>ex. row_error lib ex = None) rows"
  shows "skipped lib idx rows = []"
    and "length (kept lib idx rows) = length rows"
    and "i < length rows \<Longrightarrow> kept lib idx rows ! i = (idx + i, rows ! i)"
  using assms
proof (induction rows arbitrary: idx i)
  case Nil
  {
    case 1 show ?case by simp
  next
    case 2 show ?case by simp
  next
    case 3 then show ?case by simp
  }
next
  case (Cons ex rest)
  {
    case 1
    then have "list_all (\<lambda>ex. row_error lib ex = None) rest" "row_error lib ex = None"
      by simp_all
    with Cons.IH(1) show ?case by simp
  next
    case 2
    then have "list_all (\<lambda>ex. row_error lib ex = None) rest" "row_error lib ex = None"
      by simp_all
    with Cons.IH(2) show ?case by simp
  next
    case 3
    then have r: "list_all (\<lambda>ex. row_error lib ex = None) rest" and e: "row_error lib ex = None"
      by simp_all
    show ?case
    proof (cases i)
      case 0
      with e show ?thesis by simp
    next
      case (Suc j)
      with 3 have "j < length rest" by simp
      from Cons.IH(3) [OF this r, of "Suc idx"] e Suc show ?thesis by simp
    qed
  }
qed







lemma well_formed_text_row: "well_formed lib ex \<Longrightarrow> text_row ex"
  by (cases "question ex") (simp_all add: well_formed_def text_row_def)

lemma well_formed_row:
  assumes "well_formed lib ex"
  shows "\<exists>im enc q a. image_attr ex = Some im \<and> encode_image lib im 80 = Inr enc \<and>
           question ex = PStr q \<and> answer ex = PStr a \<and>
           loads (dumps (record_of lib (i, ex))) =
             Some (training_record (ustr (''Question ['' @ str_nat i @ '']: '') @ q)
                     (base64_prefix @ enc) a) \<and>
           parse_line (dumps (record_of lib (i, ex))) =
             Some (ustr (''Question ['' @ str_nat i @ '']: '') @ q, base64_prefix @ enc, a)"
proof -
  from assms have e: "row_error lib ex = None" by (simp add: well_formed_def)
  from assms obtain q where q: "question ex = PStr q"
    by (cases "question ex") (simp_all add: well_formed_def)
  from image_url_Some [OF e] obtain im enc where im: "image_attr ex = Some im"
    and enc: "encode_image lib im 80 = Inr enc"
    and u: "image_url lib ex = Some (base64_prefix @ enc)" by blast
  from record_of_training [OF e well_formed_text_row [OF assms], of i] u
  obtain a where a: "answer ex = PStr a"
    and v: "valid_ustr (question_text i ex)" "valid_ustr (base64_prefix @ enc)" "valid_ustr a"
    and r: "record_of lib (i, ex) = training_record (question_text i ex) (base64_prefix @ enc) a"
    by auto
  have t: "question_text i ex = ustr (''Question ['' @ str_nat i @ '']: '') @ q"
    by (simp add: question_text_def q)
  from parse_line_training_record [OF v] im enc q a show ?thesis
    unfolding r t by blast
qed

text \<open>
  C3. For a dataset whose rows are all well formed (question and answer are strings of
  Unicode scalar values, the image is there and Pillow encodes it), nothing is printed
  and the file holds exactly one line for each row, each ended by a newline, in the
  order of the rows. Line \<open>i\<close> is a JSON text that reads back as the chat record of
  row \<open>i\<close>, with the keys in their fixed order: its user text is
  \<open>Question [i]: \<close> followed by the question, its image URL is the data-URL prefix
  followed by the base64 text \<open>encode_image\<close> returned, and its assistant content is
  the answer. The question comes back with its index prefix and the image as its
  JPEG encoding, not as the original fields (the counterexample).
\<close>

theorem jsonl_rows_roundtrip:
  assumes "list_all (well_formed lib) dataset"
  shows "\<exists>file. generate_split lib dataset = Inr ((file, None), []) \<and>
           file = concat (map (\<lambda>l. l @ [CHR 0x0A]) (lines_of file)) \<and>
           length (lines_of file) = length dataset \<and>
           (\<forall>i < length dataset. \<exists>im enc q a.
              image_attr (dataset ! i) = Some im \<and>
              encode_image lib im 80 = Inr enc \<and>
              question (dataset ! i) = PStr q \<and>
              answer (dataset ! i) = PStr a \<and>
              loads (lines_of file ! i) =
                Some (training_record (ustr (''Question ['' @ str_nat i @ '']: '') @ q)
                        (base64_prefix @ enc) a) \<and>
              parse_line (lines_of file ! i) =
                Some (ustr (''Question ['' @ str_nat i @ '']: '') @ q, base64_prefix @ enc, a))"
proof -
  let ?rs = "map (record_of lib) (kept lib 0 dataset)"
  let ?file = "concat (map (\<lambda>r. dumps r @ [CHR 0x0A]) ?rs)"
  from assms have e: "list_all (\<lambda>ex. row_error lib ex = None) dataset"
    by (simp add: list_all_iff well_formed_def)
  note k = kept_nth [OF e, where idx = 0]
  have h1: "\<forall>(i, e) \<in> set (skipped lib 0 dataset). is_Exception e"
    by (simp add: k(1))
  have h2: "\<forall>(i, ex) \<in> set (kept lib 0 dataset). text_row ex"
  proof (clarify)
    fix i ex
    assume "(i, ex) \<in> set (kept lib 0 dataset)"
    then obtain j where j: "j < length (kept lib 0 dataset)" and r: "kept lib 0 dataset ! j = (i, ex)"
      by (auto simp: in_set_conv_nth)
    from j k(2) have jl: "j < length dataset" by simp
    from k(3) [OF jl] r have "ex = dataset ! j" by simp
    moreover from assms jl have "well_formed lib (dataset ! j)" by (simp add: list_all_length)
    ultimately show "text_row ex" by (simp add: well_formed_text_row)
  qed
  note g = generate_split_char [OF h1 h2]
  have l: "lines_of ?file = map dumps ?rs" by (rule g(2))
  have 1: "generate_split lib dataset = Inr ((?file, None), [])"
    using g(1) by (simp add: k(1))
  have 2: "?file = concat (map (\<lambda>l. l @ [CHR 0x0A]) (lines_of ?file))"
    unfolding l by (simp add: comp_def)
  have 3: "length (lines_of ?file) = length dataset"
    unfolding l by (simp add: k(2))
  have 4: "\<exists>im enc q a.
              image_attr (dataset ! i) = Some im \<and>
              encode_image lib im 80 = Inr enc \<and>
              question (dataset ! i) = PStr q \<and>
              answer (dataset ! i) = PStr a \<and>
              loads (lines_of ?file ! i) =
                Some (training_record (ustr (''Question ['' @ str_nat i @ '']: '') @ q)
                        (base64_prefix @ enc) a) \<and>
              parse_line (lines_of ?file ! i) =
                Some (ustr (''Question ['' @ str_nat i @ '']: '') @ q, base64_prefix @ enc, a)"
    if i: "i < length dataset" for i
  proof -
    from assms i have w: "well_formed lib (dataset ! i)" by (simp add: list_all_length)
    have "lines_of ?file ! i = dumps (record_of lib (i, dataset ! i))"
      unfolding l using i k(2) k(3) [OF i] by simp
    with well_formed_row [OF w, of i] show ?thesis by simp
  qed
  from 1 2 3 4 show ?thesis by blast
qed

lemma well_formed_clean: "list_all (well_formed test_pillow) clean_dataset"
  by (simp add: clean_dataset_def well_formed_def row_error_test_image valid_ustr_ustr)

theorem jsonl_rows_roundtrip_witness:
  "\<exists>file. generate_split test_pillow clean_dataset = Inr ((file, None), []) \<and>
          length (lines_of file) = 2 \<and>
          parse_line (lines_of file ! 0) =
            Some (ustr (''Question ['' @ str_nat 0 @ '']: '') @ ustr ''How many bars?'',
                  base64_prefix @ ustr (b64encode [1, 2, 3]), ustr ''4'') \<and>
          parse_line (lines_of file ! 1) =
            Some (ustr (''Question ['' @ str_nat 1 @ '']: '') @ ustr ''Which year is highest?'',
                  base64_prefix @ ustr (b64encode [1, 2, 3]), ustr ''2019'')"
proof -
  have l: "length clean_dataset = 2" by (simp add: clean_dataset_def)
  have r: "image_attr (clean_dataset ! 0) = Some test_image"
    "question (clean_dataset ! 0) = PStr (ustr ''How many bars?'')"
    "answer (clean_dataset ! 0) = PStr (ustr ''4'')"
    "image_attr (clean_dataset ! 1) = Some test_image"
    "question (clean_dataset ! 1) = PStr (ustr ''Which year is highest?'')"
    "answer (clean_dataset ! 1) = PStr (ustr ''2019'')"
    by (simp_all add: clean_dataset_def)
  from jsonl_rows_roundtrip [OF well_formed_clean] obtain out where
    g: "generate_split test_pillow clean_dataset = Inr ((out, None), [])"
    and n: "length (lines_of out) = length clean_dataset"
    and a: "\<forall>i < length clean_dataset. \<exists>im enc q a.
              image_attr (clean_dataset ! i) = Some im \<and>
              encode_image test_pillow im 80 = Inr enc \<and>
              question (clean_dataset ! i) = PStr q \<and>
              answer (clean_dataset ! i) = PStr a \<and>
              loads (lines_of out ! i) =
                Some (training_record (ustr (''Question ['' @ str_nat i @ '']: '') @ q)
                        (base64_prefix @ enc) a) \<and>
              parse_line (lines_of out ! i) =
                Some (ustr (''Question ['' @ str_nat i @ '']: '') @ q, base64_prefix @ enc, a)"
    by blast
  have i0: "0 < length clean_dataset" and i1: "1 < length clean_dataset"
    by (simp_all add: l)
  from a i0 have "\<exists>im enc q a.
              image_attr (clean_dataset ! 0) = Some im \<and>
              encode_image test_pillow im 80 = Inr enc \<and>
              question (clean_dataset ! 0) = PStr q \<and>
              answer (clean_dataset ! 0) = PStr a \<and>
              parse_line (lines_of out ! 0) =
                Some (ustr (''Question ['' @ str_nat 0 @ '']: '') @ q, base64_prefix @ enc, a)"
    by blast
  then have p0: "parse_line (lines_of out ! 0) =
            Some (ustr (''Question ['' @ str_nat 0 @ '']: '') @ ustr ''How many bars?'',
                  base64_prefix @ ustr (b64encode [1, 2, 3]), ustr ''4'')"
    by (simp only: r) (auto simp: encode_test_image simp del: b64encode.simps)
  from a i1 have "\<exists>im enc q a.
              image_attr (clean_dataset ! 1) = Some im \<and>
              encode_image test_pillow im 80 = Inr enc \<and>
              question (clean_dataset ! 1) = PStr q \<and>
              answer (clean_dataset ! 1) = PStr a \<and>
              parse_line (lines_of out ! 1) =
                Some (ustr (''Question ['' @ str_nat 1 @ '']: '') @ q, base64_prefix @ enc, a)"
    by blast
  then have p1: "parse_line (lines_of out ! 1) =
            Some (ustr (''Question ['' @ str_nat 1 @ '']: '') @ ustr ''Which year is highest?'',
                  base64_prefix @ ustr (b64encode [1, 2, 3]), ustr ''2019'')"
    by (simp only: r) (auto simp: encode_test_image simp del: b64encode.simps)
  from g n l p0 p1 show ?thesis by auto
qed

lemma str_nat_0: "str_nat 0 = ''0''"
proof -
  have "char_of (48 :: nat) = CHR ''0''" by code_simp
  then show ?thesis by (simp add: str_nat.simps [of 0] digit_char_def)
qed

theorem question_field_counterexample:
  "well_formed test_pillow (hd clean_dataset) \<and>
   question (hd clean_dataset) = PStr (ustr ''How many bars?'') \<and>
   (case generate_split test_pillow [hd clean_dataset] of
      Inl e \<Rightarrow> False
    | Inr ((file, raised), printed) \<Rightarrow>
        raised = None \<and>
        map parse_line (lines_of file) =
          [Some (ustr ''Question [0]: How many bars?'',
                 base64_prefix @ ustr (b64encode [1, 2, 3]), ustr ''4'')]) \<and>
   ustr ''Question [0]: How many bars?'' \<noteq> ustr ''How many bars?''"
proof -
  let ?ex = "hd clean_dataset"
  have w: "well_formed test_pillow ?ex"
    by (simp add: clean_dataset_def well_formed_def row_error_test_image valid_ustr_ustr)
  have e: "row_error test_pillow ?ex = None"
    using w by (simp add: well_formed_def)
  have s: "skipped test_pillow 0 [?ex] = []" and k: "kept test_pillow 0 [?ex] = [(0, ?ex)]"
    by (simp_all add: e)
  have h1: "\<forall>(i, e) \<in> set (skipped test_pillow 0 [?ex]). is_Exception e"
    unfolding s by simp
  have h2: "\<forall>(i, ex) \<in> set (kept test_pillow 0 [?ex]). text_row ex"
    unfolding k by (simp add: well_formed_text_row [OF w])
  have f: "fields_of test_pillow (0, ?ex) =
             Some (ustr ''Question [0]: How many bars?'',
                   base64_prefix @ ustr (b64encode [1, 2, 3]), ustr ''4'')"
    by (simp add: clean_dataset_def fields_of_def row_error_test_image question_text_def
          str_nat_0 ustr_def)
  note g = generate_split_char [OF h1 h2]
  let ?file = "concat (map (\<lambda>r. dumps r @ [CHR 0x0A])
                 (map (record_of test_pillow) (kept test_pillow 0 [?ex])))"
  have 1: "generate_split test_pillow [?ex] = Inr ((?file, None), [])"
    by (simp only: g(1) s list.map)
  have 2: "map parse_line (lines_of ?file) =
             [Some (ustr ''Question [0]: How many bars?'',
                    base64_prefix @ ustr (b64encode [1, 2, 3]), ustr ''4'')]"
    unfolding g(2) g(3) by (simp only: k list.map f)
  have q: "question ?ex = PStr (ustr ''How many bars?'')"
    by (simp add: clean_dataset_def)
  have d: "ustr ''Question [0]: How many bars?'' \<noteq> ustr ''How many bars?''"
    by (simp add: ustr_def)
  show ?thesis
    by (simp only: 1 2 w q d sum.case prod.case simp_thms)
qed

end
